theory Spec2Isabelle
  imports Main "HOL-Library.Word"
begin

unbundle bit_operations_syntax

text \<open>
  A shallow embedding of the capture-to-classification pipeline of the MAX78000
  horse-or-human demo: the pixel codec and frame capture of \<^verbatim>\<open>camera_utils.c\<close>, the result
  interpretation of \<^verbatim>\<open>inference_utils.c\<close>, the exporters of \<^verbatim>\<open>serial_stream.c\<close>, the
  renderers of \<^verbatim>\<open>display_utils.c\<close> and the capture cycle of \<^verbatim>\<open>main.c\<close>. The first part
  gives the definitions, each next to the C it stands for; the second part proves the
  properties C1 to C10.
\<close>

section \<open>Machine types\<close>

type_synonym u8 = "8 word"
type_synonym u16 = "16 word"
type_synonym u32 = "32 word"

section \<open>PixelCodec\<close>

text \<open>
  \<^verbatim>\<open>camera_utils_capture\<close> stores one packed word per pixel:
  \<^verbatim>\<open>cnn_buffer[cnt] = ((uint32_t)b << 16) | ((uint32_t)g << 8) | (uint32_t)r;\<close>
  \<^verbatim>\<open>cnn_buffer[cnt] ^= 0x00808080U;\<close>
\<close>

definition pack_pixel :: "u8 \<Rightarrow> u8 \<Rightarrow> u8 \<Rightarrow> u32" where
  "pack_pixel r g b =
     (push_bit 16 (ucast b :: u32) OR push_bit 8 (ucast g :: u32) OR (ucast r :: u32))
       XOR 0x00808080"

text \<open>
  Every exporter and renderer reads a pixel back with
  \<^verbatim>\<open>pixel = cnn_buffer[idx] ^ 0x00808080U;\<close>
  \<^verbatim>\<open>r = (uint8_t)(pixel & 0xFF); g = (uint8_t)((pixel >> 8) & 0xFF);\<close>
  \<^verbatim>\<open>b = (uint8_t)((pixel >> 16) & 0xFF);\<close>
\<close>

definition unpack_pixel :: "u32 \<Rightarrow> u8 \<times> u8 \<times> u8" where
  "unpack_pixel word =
     (let pixel = word XOR 0x00808080 in
        (ucast (pixel AND 0xFF),
         ucast (drop_bit 8 pixel AND 0xFF),
         ucast (drop_bit 16 pixel AND 0xFF)))"


section \<open>ResultInterpreter: \<^verbatim>\<open>inference_wait\<close>\<close>

type_synonym q15_t = "16 word"

datatype inference_status_t = INFERENCE_OK | INFERENCE_ERROR | INFERENCE_TIMEOUT

text \<open>
  \<^verbatim>\<open>inference_result_t\<close>. The two arrays have \<^verbatim>\<open>CNN_NUM_OUTPUTS\<close> entries; the
  two \<^verbatim>\<open>int\<close> fields hold the value of the C \<^verbatim>\<open>int\<close>.
\<close>

record inference_result_t =
  raw_output :: "32 word list"
  softmax :: "q15_t list"
  predicted_class :: int
  confidence_percent :: int
  inference_time_us :: u32

text \<open>
  The accelerator as \<^verbatim>\<open>inference_wait\<close> sees it: the successive values read from the
  volatile \<^verbatim>\<open>cnn_time\<close> (the interrupt handler stores the elapsed time there once, so
  the first non-zero value read is the one recorded), and the words \<^verbatim>\<open>cnn_unload\<close>
  stores into \<^verbatim>\<open>raw_output\<close>.
\<close>

record cnn_hw =
  cnn_time_reads :: "u32 list"
  cnn_unload :: "32 word list"

text \<open>
  \<^verbatim>\<open>while (cnn_time == 0) { __WFI(); }\<close>: \<open>None\<close> when no read ever returns a non-zero
  value, that is when the loop never ends.
\<close>

fun wait_cnn_time :: "u32 list \<Rightarrow> u32 option" where
  "wait_cnn_time [] = None"
| "wait_cnn_time (t # ts) = (if t = 0 then wait_cnn_time ts else Some t)"

text \<open>
  \<^verbatim>\<open>for (i = 1; i < CNN_NUM_OUTPUTS; i++) {\<close>
  \<^verbatim>\<open>  if (result->softmax[i] > max_val) { max_val = result->softmax[i]; max_idx = i; } }\<close>
  The comparison is the signed one of \<^verbatim>\<open>q15_t\<close> (\<^verbatim>\<open>int16_t\<close>).
\<close>

function find_max :: "q15_t list \<Rightarrow> nat \<Rightarrow> nat \<Rightarrow> q15_t \<Rightarrow> nat \<Rightarrow> q15_t \<times> nat" where
  "find_max sm n i max_val max_idx =
     (if i < n then
        (if max_val <s sm ! i then find_max sm n (i + 1) (sm ! i) i
         else find_max sm n (i + 1) max_val max_idx)
      else (max_val, max_idx))"
  by pat_completeness auto
termination
  by (relation "measure (\<lambda>(sm, n, i, max_val, max_idx). n - i)") auto

declare find_max.simps [simp del]

text \<open>
  \<^verbatim>\<open>(max_val * 100) >> 15\<close>: \<^verbatim>\<open>max_val\<close> is promoted to the 32-bit \<^verbatim>\<open>int\<close>, the
  shift of a signed value is the arithmetic one.
\<close>

definition to_percent :: "q15_t \<Rightarrow> int" where
  "to_percent max_val = sint (signed_drop_bit 15 ((scast max_val :: 32 word) * 100))"

text \<open>
  \<^verbatim>\<open>inference_wait\<close>, with \<^verbatim>\<open>CNN_NUM_OUTPUTS\<close> (from the generated \<^verbatim>\<open>cnn.h\<close>) and the
  library routine \<^verbatim>\<open>softmax_q17p14_q15\<close> as parameters. \<open>None\<close> is a call that never
  returns; the second component is the structure behind \<^verbatim>\<open>result\<close> on return
  (\<open>None\<close> for a \<^verbatim>\<open>NULL\<close> pointer).
\<close>

definition inference_wait ::
  "nat \<Rightarrow> (32 word list \<Rightarrow> nat \<Rightarrow> q15_t list) \<Rightarrow> cnn_hw \<Rightarrow> inference_result_t option
     \<Rightarrow> (inference_status_t \<times> inference_result_t option) option" where
  "inference_wait CNN_NUM_OUTPUTS softmax_q17p14_q15 hw result =
     (case result of
        None \<Rightarrow> Some (INFERENCE_ERROR, None)
      | Some res \<Rightarrow>
          (case wait_cnn_time (cnn_time_reads hw) of
             None \<Rightarrow> None
           | Some cnn_time \<Rightarrow>
               let res = res\<lparr>inference_time_us := cnn_time\<rparr>;
                   res = res\<lparr>raw_output := cnn_unload hw\<rparr>;
                   res = res\<lparr>softmax := softmax_q17p14_q15 (raw_output res) CNN_NUM_OUTPUTS\<rparr>;
                   (max_val, max_idx) =
                      find_max (softmax res) CNN_NUM_OUTPUTS 1 (softmax res ! 0) 0;
                   res = res\<lparr>predicted_class := int max_idx\<rparr>;
                   res = res\<lparr>confidence_percent := to_percent max_val\<rparr>
               in Some (INFERENCE_OK, Some res)))"

section \<open>Buffers and console output\<close>

text \<open>
  A buffer argument is a C pointer: \<open>None\<close> is \<^verbatim>\<open>NULL\<close>, \<open>Some m\<close> a valid pointer
  with \<open>m i\<close> the element at offset \<open>i\<close>. Console output (\<^verbatim>\<open>printf\<close>, \<^verbatim>\<open>putchar\<close>) is
  the string of characters written, in order.

  The C \<^verbatim>\<open>int\<close> arguments \<^verbatim>\<open>width\<close> and \<^verbatim>\<open>height\<close> of the exporters are modelled by
  \<open>int\<close>: the loop counters stay below \<^verbatim>\<open>width * height\<close>, which for a frame that fits the
  32-bit address space is far below \<^verbatim>\<open>INT_MAX\<close>. A counting loop
  \<^verbatim>\<open>for (int row = 0; row < height; row++)\<close> runs its body for \<open>row = 0, ..., height - 1\<close>,
  that is over \<open>[0..<nat height]\<close>, and not at all when \<^verbatim>\<open>height\<close> is zero or negative.
\<close>

type_synonym 'a ptr = "(nat \<Rightarrow> 'a) option"

text \<open>\<^verbatim>\<open>printf("%d", n)\<close>.\<close>

function dec_nat :: "nat \<Rightarrow> string" where
  "dec_nat n =
     (if n < 10 then [''0123456789'' ! n]
      else dec_nat (n div 10) @ [''0123456789'' ! (n mod 10)])"
  by pat_completeness auto
termination
  by (relation "measure id") auto

declare dec_nat.simps [simp del]

definition dec_int :: "int \<Rightarrow> string" where
  "dec_int n = (if n < 0 then CHR ''-'' # dec_nat (nat (- n)) else dec_nat (nat n))"

text \<open>\<^verbatim>\<open>printf("%02X", b)\<close> for a byte.\<close>

definition hex2 :: "u8 \<Rightarrow> string" where
  "hex2 b = [''0123456789ABCDEF'' ! (unat b div 16), ''0123456789ABCDEF'' ! (unat b mod 16)]"

section \<open>FrameExporter: \<^verbatim>\<open>serial_stream.c\<close>\<close>

text \<open>
  \<^verbatim>\<open>serial_stream_ppm\<close>. One pixel of the inner loop: \<^verbatim>\<open>idx = row * width + col\<close>, the
  decoded triple printed with \<^verbatim>\<open>"%d %d %d "\<close>, and a newline after every eighth column.
\<close>

definition ppm_pixel :: "(nat \<Rightarrow> u32) \<Rightarrow> nat \<Rightarrow> nat \<Rightarrow> nat \<Rightarrow> string" where
  "ppm_pixel buf width row col =
     (let idx = row * width + col;
          (r, g, b) = unpack_pixel (buf idx)
      in dec_nat (unat r) @ '' '' @ dec_nat (unat g) @ '' '' @ dec_nat (unat b) @ '' '' @
         (if (col + 1) mod 8 = 0 then ''\<newline>'' else ''''))"

definition serial_stream_ppm :: "u32 ptr \<Rightarrow> int \<Rightarrow> int \<Rightarrow> string" where
  "serial_stream_ppm cnn_buffer width height =
     (case cnn_buffer of
        None \<Rightarrow> ''''
      | Some buf \<Rightarrow>
          ''P3\<newline>'' @ ''# Captured from MAX78000 CNN\<newline>'' @
          dec_int width @ '' '' @ dec_int height @ ''\<newline>'' @ ''255\<newline>'' @
          concat (map (\<lambda>row.
                    concat (map (ppm_pixel buf (nat width) row) [0..<nat width]) @ ''\<newline>'')
                  [0..<nat height]))"

text \<open>\<^verbatim>\<open>serial_stream_hex\<close>.\<close>

definition hex_pixel :: "(nat \<Rightarrow> u32) \<Rightarrow> nat \<Rightarrow> nat \<Rightarrow> nat \<Rightarrow> string" where
  "hex_pixel buf width row col =
     (let idx = row * width + col;
          (r, g, b) = unpack_pixel (buf idx)
      in hex2 r @ hex2 g @ hex2 b)"

definition serial_stream_hex :: "u32 ptr \<Rightarrow> int \<Rightarrow> int \<Rightarrow> string" where
  "serial_stream_hex cnn_buffer width height =
     (case cnn_buffer of
        None \<Rightarrow> ''''
      | Some buf \<Rightarrow>
          ''=== HEX IMAGE DATA ===\<newline>'' @
          ''Size: '' @ dec_int width @ ''x'' @ dec_int height @ ''\<newline>'' @
          concat (map (\<lambda>row.
                    concat (map (hex_pixel buf (nat width) row) [0..<nat width]) @ ''\<newline>'')
                  [0..<nat height]) @
          ''=== END HEX DATA ===\<newline>'')"

text \<open>
  \<^verbatim>\<open>serial_stream_base64\<close>. The locals \<^verbatim>\<open>triplet\<close>, \<^verbatim>\<open>triplet_idx\<close> and \<^verbatim>\<open>line_len\<close>
  live across the pixel loops, together with the characters written so far. The array
  \<^verbatim>\<open>triplet\<close> is uninitialised in the source; each entry is stored before it is read.
\<close>

definition base64_table :: string where
  "base64_table = ''ABCDEFGHIJKLMNOPQRSTUVWXYZabcdefghijklmnopqrstuvwxyz0123456789+/''"

record b64_state =
  triplet :: "u8 list"
  triplet_idx :: nat
  line_len :: nat
  out :: string

text \<open>The four table indices of a 3-byte group, computed after promotion to \<^verbatim>\<open>int\<close>.\<close>

definition b64_c0 :: "u8 list \<Rightarrow> char" where
  "b64_c0 t = base64_table ! unat (drop_bit 2 (ucast (t ! 0) :: u32) AND 0x3F)"

definition b64_c1 :: "u8 list \<Rightarrow> char" where
  "b64_c1 t = base64_table !
     unat (push_bit 4 ((ucast (t ! 0) :: u32) AND 0x03) OR (drop_bit 4 (ucast (t ! 1) :: u32) AND 0x0F))"

definition b64_c2 :: "u8 list \<Rightarrow> char" where
  "b64_c2 t = base64_table !
     unat (push_bit 2 ((ucast (t ! 1) :: u32) AND 0x0F) OR (drop_bit 6 (ucast (t ! 2) :: u32) AND 0x03))"

definition b64_c3 :: "u8 list \<Rightarrow> char" where
  "b64_c3 t = base64_table ! unat ((ucast (t ! 2) :: u32) AND 0x3F)"

text \<open>
  One round of \<^verbatim>\<open>for (int i = 0; i < 3; i++)\<close>:
  \<^verbatim>\<open>triplet[triplet_idx++] = rgb[i];\<close> and, once three bytes are there, the four
  \<^verbatim>\<open>putchar\<close>s and the line-length bookkeeping.
\<close>

definition b64_byte :: "u8 \<Rightarrow> b64_state \<Rightarrow> b64_state" where
  "b64_byte byte st =
     (let st = st\<lparr>triplet := (triplet st)[triplet_idx st := byte],
                  triplet_idx := triplet_idx st + 1\<rparr>
      in if triplet_idx st = 3 then
           let st = st\<lparr>out := out st @ [b64_c0 (triplet st), b64_c1 (triplet st),
                                         b64_c2 (triplet st), b64_c3 (triplet st)],
                        triplet_idx := 0,
                        line_len := line_len st + 4\<rparr>
           in if line_len st \<ge> 76 then st\<lparr>out := out st @ ''\<newline>'', line_len := 0\<rparr>
              else st
         else st)"

definition b64_pixel :: "(nat \<Rightarrow> u32) \<Rightarrow> nat \<Rightarrow> nat \<Rightarrow> nat \<Rightarrow> b64_state \<Rightarrow> b64_state" where
  "b64_pixel buf width row col st =
     (let idx = row * width + col;
          (r, g, b) = unpack_pixel (buf idx)
      in fold b64_byte [r, g, b] st)"

text \<open>\<^verbatim>\<open>/* Handle remaining bytes */\<close>\<close>

definition b64_remaining :: "b64_state \<Rightarrow> b64_state" where
  "b64_remaining st =
     (if triplet_idx st > 0 then
        let st = st\<lparr>triplet := fold (\<lambda>i t. t[i := 0]) [triplet_idx st..<3] (triplet st)\<rparr>;
            st = st\<lparr>out := out st @ [b64_c0 (triplet st), b64_c1 (triplet st)]\<rparr>;
            st = (if triplet_idx st > 1 then st\<lparr>out := out st @ [b64_c2 (triplet st)]\<rparr>
                  else st\<lparr>out := out st @ ''=''\<rparr>)
        in st\<lparr>out := out st @ ''=''\<rparr>
      else st)"

definition serial_stream_base64 :: "u32 ptr \<Rightarrow> int \<Rightarrow> int \<Rightarrow> string" where
  "serial_stream_base64 cnn_buffer width height =
     (case cnn_buffer of
        None \<Rightarrow> ''''
      | Some buf \<Rightarrow>
          let st = \<lparr>triplet = [0, 0, 0], triplet_idx = 0, line_len = 0,
                    out = ''<<<BASE64_IMG_START>>>\<newline>'' @
                          ''WIDTH:'' @ dec_int width @ '',HEIGHT:'' @ dec_int height @
                          ''\<newline>''\<rparr>;
              st = fold (\<lambda>row. fold (b64_pixel buf (nat width) row) [0..<nat width])
                     [0..<nat height] st;
              st = b64_remaining st
          in out st @ ''\<newline><<<BASE64_IMG_END>>>\<newline>'')"

section \<open>Runs that may fault or never end\<close>

text \<open>
  A run ends normally with a value (\<open>Some (Inr x)\<close>), stops at a memory fault
  (\<open>Some (Inl f)\<close>), or never ends (\<open>None\<close>).
\<close>

datatype fault = NullRead | NullWrite | RampRead

text \<open>
  The renderers step their counters by a caller-supplied amount, so their \<^verbatim>\<open>int\<close>s are
  modelled as 32-bit words in two's complement: \<open>+\<close> and \<open>*\<close> wrap around as they do on
  the target, \<open><s\<close> is the signed comparison and \<open>sint\<close> reads the value.
\<close>

type_synonym c_int = "32 word"

text \<open>
  \<^verbatim>\<open>for (v = start; v < bound; v += step) body\<close>. With a step that is not positive, or
  when \<^verbatim>\<open>v += step\<close> passes \<^verbatim>\<open>INT_MAX\<close> and wraps to a negative value, the counter may
  never reach the bound; the loop is therefore a partial function.
\<close>

partial_function (option) for_loop ::
  "c_int \<Rightarrow> c_int \<Rightarrow> c_int \<Rightarrow> (c_int \<Rightarrow> 's \<Rightarrow> (fault + 's) option) \<Rightarrow> 's
     \<Rightarrow> (fault + 's) option" where
  "for_loop v bound step body s =
     (if v <s bound then
        Option.bind (body v s)
          (\<lambda>r. case r of Inl f \<Rightarrow> Some (Inl f)
                | Inr s' \<Rightarrow> for_loop (v + step) bound step body s')
      else Some (Inr s))"

declare for_loop.simps [code]

section \<open>AsciiPreview: \<^verbatim>\<open>display_utils.c\<close>\<close>

definition BRIGHTNESS_EXTENDED :: string where
  "BRIGHTNESS_EXTENDED =
     ''$@B%8&WM#*oahkbdpqwmZO0QLCJUYXzcvunxrjft/'' @ [CHR 0x5C] @ ''|()1{}[]?-_+~<>i!lI;:,'' @
     [CHR 0x22] @ ''^'' @ [CHR 0x60] @ [CHR 0x27] @ ''. ''"

definition BRIGHTNESS_STANDARD :: string where
  "BRIGHTNESS_STANDARD = ''@%#*+=-:. ''"

text \<open>
  \<^verbatim>\<open>Y = (uint8_t)(((uint16_t)(77 * r) + (uint16_t)(150 * g) + (uint16_t)(29 * b)) >> 8);\<close>
\<close>

definition luminance :: "u8 \<Rightarrow> u8 \<Rightarrow> u8 \<Rightarrow> nat" where
  "luminance r g b =
     ((77 * unat r) mod 65536 + (150 * unat g) mod 65536 + (29 * unat b) mod 65536) div 256 mod 256"

text \<open>
  \<^verbatim>\<open>char_idx = (Y * (num_chars - 1)) / 255;\<close>
  \<^verbatim>\<open>putchar(bstr[(num_chars - 1) - char_idx]);\<close>
  \<^verbatim>\<open>num_chars\<close> is a \<^verbatim>\<open>size_t\<close>, so the arithmetic is unsigned 32-bit. The character
  at index \<^verbatim>\<open>strlen(bstr)\<close> is the terminator; a read beyond it is a fault.
\<close>

definition ramp_char :: "string \<Rightarrow> nat \<Rightarrow> fault + char" where
  "ramp_char bstr Y =
     (let num_chars = length bstr;
          last_idx = (num_chars + 2 ^ 32 - 1) mod 2 ^ 32;
          char_idx = (Y * last_idx) mod 2 ^ 32 div 255;
          i = (last_idx + 2 ^ 32 - char_idx) mod 2 ^ 32
      in if i < num_chars then Inr (bstr ! i)
         else if i = num_chars then Inr (CHR 0x00)
         else Inl RampRead)"

definition putchar_ramp :: "string \<Rightarrow> nat \<Rightarrow> string \<Rightarrow> (fault + string) option" where
  "putchar_ramp bstr Y txt =
     (case ramp_char bstr Y of Inl f \<Rightarrow> Some (Inl f) | Inr c \<Rightarrow> Some (Inr (txt @ [c])))"

text \<open>The statement after the inner loop: \<^verbatim>\<open>putchar('\n')\<close>, once the row is written.\<close>

definition end_row :: "(fault + string) option \<Rightarrow> (fault + string) option" where
  "end_row row =
     (case row of None \<Rightarrow> None | Some (Inl f) \<Rightarrow> Some (Inl f)
      | Some (Inr txt) \<Rightarrow> Some (Inr (txt @ ''\<newline>'')))"

text \<open>
  \<^verbatim>\<open>display_ascii_art\<close>. The offset \<^verbatim>\<open>(y * width + x) * 4\<close> is computed in \<^verbatim>\<open>int\<close>; the
  address \<^verbatim>\<open>img + offset\<close> is taken modulo \<open>2 ^ 32\<close> on the target, so \<^verbatim>\<open>srcPtr[n]\<close> is the
  byte at the unsigned value of \<^verbatim>\<open>offset + n\<close>. For a frame inside its buffer this is the
  plain offset \<open>(y * width + x) * 4 + n\<close>.
\<close>

definition display_ascii_art ::
  "u8 ptr \<Rightarrow> c_int \<Rightarrow> c_int \<Rightarrow> c_int \<Rightarrow> string option \<Rightarrow> (fault + string) option" where
  "display_ascii_art img width height ratio brightness =
     (case img of
        None \<Rightarrow> Some (Inr '''')
      | Some mem \<Rightarrow>
          let bstr = (case brightness of Some b \<Rightarrow> b | None \<Rightarrow> BRIGHTNESS_STANDARD);
              ratio = (if ratio <s 1 then 1 else ratio);
              x_step = ratio;
              y_step = ratio * 2
          in for_loop 0 height y_step
               (\<lambda>y txt. end_row
                  (for_loop 0 width x_step
                     (\<lambda>x txt.
                        let src = (y * width + x) * 4;
                            r = mem (unat src); g = mem (unat (src + 1)); b = mem (unat (src + 2))
                        in putchar_ramp bstr (luminance r g b) txt)
                     txt))
               '''')"

text \<open>
  \<^verbatim>\<open>display_ascii_art_from_cnn\<close> and \<^verbatim>\<open>display_ascii_art_detailed\<close>. The index
  \<^verbatim>\<open>idx = y * width + x\<close> is computed in \<^verbatim>\<open>int\<close>; the address of \<^verbatim>\<open>cnn_buffer[idx]\<close> is
  \<^verbatim>\<open>cnn_buffer + 4 * idx\<close> modulo \<open>2 ^ 32\<close> on the target, which is the word at offset
  \<open>unat (4 * idx) div 4\<close>. For a frame inside its buffer this is the plain index
  \<open>y * width + x\<close>.
\<close>

definition display_ascii_art_from_cnn ::
  "u32 ptr \<Rightarrow> c_int \<Rightarrow> c_int \<Rightarrow> c_int \<Rightarrow> (fault + string) option" where
  "display_ascii_art_from_cnn cnn_buffer width height ratio =
     (case cnn_buffer of
        None \<Rightarrow> Some (Inr '''')
      | Some buf \<Rightarrow>
          let bstr = BRIGHTNESS_STANDARD;
              ratio = (if ratio <s 1 then 1 else ratio);
              x_step = ratio;
              y_step = ratio * 2
          in for_loop 0 height y_step
               (\<lambda>y txt. end_row
                  (for_loop 0 width x_step
                     (\<lambda>x txt.
                        let idx = y * width + x;
                            (r, g, b) = unpack_pixel (buf (unat (4 * idx) div 4))
                        in putchar_ramp bstr (luminance r g b) txt)
                     txt))
               '''')"

definition display_ascii_art_detailed ::
  "u32 ptr \<Rightarrow> c_int \<Rightarrow> c_int \<Rightarrow> c_int \<Rightarrow> (fault + string) option" where
  "display_ascii_art_detailed cnn_buffer width height ratio =
     (case cnn_buffer of
        None \<Rightarrow> Some (Inr '''')
      | Some buf \<Rightarrow>
          let bstr = BRIGHTNESS_EXTENDED;
              ratio = (if ratio <s 1 then 1 else ratio);
              x_step = ratio;
              y_step = ratio * 2
          in for_loop 0 height y_step
               (\<lambda>y txt. end_row
                  (for_loop 0 width x_step
                     (\<lambda>x txt.
                        let idx = y * width + x;
                            (r, g, b) = unpack_pixel (buf (unat (4 * idx) div 4))
                        in putchar_ramp bstr (luminance r g b) txt)
                     txt))
               '''')"

section \<open>FrameAssembler: \<^verbatim>\<open>camera_utils.c\<close>\<close>

datatype cam_status_t = CAM_STATUS_OK | CAM_STATUS_ERROR | CAM_STATUS_OVERFLOW | CAM_STATUS_TIMEOUT

text \<open>
  The camera driver as \<^verbatim>\<open>camera_utils_capture\<close> sees it. \<^verbatim>\<open>camera_get_image\<close> reports
  the width and height. Each round of the wait loop asks \<^verbatim>\<open>get_camera_stream_buffer()\<close>
  for a line (\<open>None\<close> is \<^verbatim>\<open>NULL\<close>, \<open>Some d\<close> a line with byte \<open>d k\<close> at offset \<open>k\<close>) and,
  when there is none, asks \<^verbatim>\<open>camera_is_image_rcv()\<close>; \<open>cam_polls\<close> lists the answers the
  driver gives, in order, and a driver that has no further answer leaves the loop
  spinning.
\<close>

type_synonym line_buffer = "nat \<Rightarrow> u8"

type_synonym poll = "line_buffer option \<times> bool"

text \<open>
  Modelled from the spec: the field \<open>cam_overflow_count\<close>. The type \<^verbatim>\<open>stream_stat_t\<close>
  comes from the platform's \<^verbatim>\<open>camera.h\<close>; its \<^verbatim>\<open>overflow_count\<close> is the "cumulative
  overflow counter" of the specification, an unsigned 32-bit count, here with the value
  read after the last scanline.
\<close>

record camera =
  cam_w :: u32
  cam_h :: u32
  cam_polls :: "poll list"
  cam_overflow_count :: u32

text \<open>
  An output buffer argument is \<^verbatim>\<open>NULL\<close> or points to a buffer. What the function does
  to the buffers is the list of its stores, in order: \<open>Store_cnn i v\<close> is
  \<^verbatim>\<open>cnn_buffer[i] = v\<close>, \<open>Store_rgb565 i v\<close> is \<^verbatim>\<open>rgb565_buffer[i] = v\<close>. The assignment
  to \<^verbatim>\<open>cnn_buffer[cnt]\<close> and the \<^verbatim>\<open>^=\<close> that follows it are one store of the final value.
  A call returns a value (\<open>Returned\<close>), stops at a fault (\<open>Crashed\<close>), or never returns
  (\<open>Stalled\<close>: it stays in a wait loop for ever).
\<close>

datatype out_pointer = NULL | Buffer

datatype store = Store_cnn nat u32 | Store_rgb565 nat u8

datatype 'a ending = Returned 'a | Crashed fault | Stalled

text \<open>
  The locals \<^verbatim>\<open>cnt\<close> and \<^verbatim>\<open>j\<close>, the stores made so far and the driver's remaining
  answers. \<^verbatim>\<open>cnt\<close> and \<^verbatim>\<open>j\<close> are C \<^verbatim>\<open>int\<close>s that only count up from 0: \<^verbatim>\<open>cnt\<close> stays
  at most \<^verbatim>\<open>cnn_buffer_size\<close> and \<^verbatim>\<open>j\<close> at most twice the line width, so for buffers
  that fit the 32-bit address space neither overflows, and they are modelled by \<open>nat\<close>.
\<close>

record capture_state =
  cs_cnt :: nat
  cs_j :: nat
  cs_stores :: "store list"
  cs_polls :: "poll list"

text \<open>
  \<^verbatim>\<open>while ((data = get_camera_stream_buffer()) == NULL) { if (camera_is_image_rcv()) break; }\<close>
  The result is \<^verbatim>\<open>data\<close> and the answers left; \<open>None\<close> when the loop never ends.
\<close>

fun wait_stream_buffer :: "poll list \<Rightarrow> (line_buffer option \<times> poll list) option" where
  "wait_stream_buffer [] = None"
| "wait_stream_buffer ((Some d, rcv) # ps) = Some (Some d, ps)"
| "wait_stream_buffer ((None, rcv) # ps) =
     (if rcv then Some (None, ps) else wait_stream_buffer ps)"

text \<open>
  \<^verbatim>\<open>rgb = (uint16_t)(((r & 0b11111000) << 8) | ((g & 0b11111100) << 3) | (b >> 3));\<close>
\<close>

definition to_rgb565 :: "u8 \<Rightarrow> u8 \<Rightarrow> u8 \<Rightarrow> u16" where
  "to_rgb565 r g b =
     ucast (push_bit 8 ((ucast r :: u32) AND 0xF8) OR push_bit 3 ((ucast g :: u32) AND 0xFC)
            OR drop_bit 3 (ucast b :: u32))"

text \<open>
  The body of the pixel loop, for byte offset \<open>k\<close> of the line: read \<^verbatim>\<open>r\<close>, \<^verbatim>\<open>g\<close>, \<^verbatim>\<open>b\<close>
  (a fault when \<^verbatim>\<open>data\<close> is \<^verbatim>\<open>NULL\<close>), store the packed pixel when
  \<^verbatim>\<open>(uint32_t)cnt < cnn_buffer_size\<close> (a fault when \<^verbatim>\<open>cnn_buffer\<close> is \<^verbatim>\<open>NULL\<close>: the source
  does not test it), and store the two display bytes when
  \<^verbatim>\<open>rgb565_buffer != NULL && (uint32_t)(j + 1) < rgb565_size\<close>.
  The second component is the fault the body stopped at, if any.
\<close>

definition capture_pixel ::
  "line_buffer option \<Rightarrow> out_pointer \<Rightarrow> u32 \<Rightarrow> out_pointer \<Rightarrow> u32 \<Rightarrow> nat \<Rightarrow> capture_state
     \<Rightarrow> capture_state \<times> fault option" where
  "capture_pixel data cnn_buffer cnn_buffer_size rgb565_buffer rgb565_size k st =
     (case data of
        None \<Rightarrow> (st, Some NullRead)
      | Some d \<Rightarrow>
          let r = d k; g = d (k + 1); b = d (k + 2) in
          if cs_cnt st < unat cnn_buffer_size \<and> cnn_buffer = NULL then (st, Some NullWrite)
          else
            let st = (if cs_cnt st < unat cnn_buffer_size
                      then st\<lparr>cs_stores := cs_stores st @ [Store_cnn (cs_cnt st) (pack_pixel r g b)],
                              cs_cnt := cs_cnt st + 1\<rparr>
                      else st);
                st = (if rgb565_buffer \<noteq> NULL \<and> cs_j st + 1 < unat rgb565_size
                      then let rgb = to_rgb565 r g b
                           in st\<lparr>cs_stores := cs_stores st @
                                   [Store_rgb565 (cs_j st) (ucast (drop_bit 8 rgb AND 0xFF)),
                                    Store_rgb565 (cs_j st + 1) (ucast (rgb AND 0xFF))],
                                 cs_j := cs_j st + 2\<rparr>
                      else st)
            in (st, None))"

text \<open>\<^verbatim>\<open>for (int k = 0; k < (int)(4 * w); k += 4)\<close>, with \<open>bound\<close> the value of \<^verbatim>\<open>(int)(4 * w)\<close>.\<close>

function capture_line ::
  "line_buffer option \<Rightarrow> out_pointer \<Rightarrow> u32 \<Rightarrow> out_pointer \<Rightarrow> u32 \<Rightarrow> int \<Rightarrow> int
     \<Rightarrow> capture_state \<Rightarrow> capture_state \<times> fault option" where
  "capture_line data cnn_buffer cnn_buffer_size rgb565_buffer rgb565_size bound k st =
     (if k < bound then
        (case capture_pixel data cnn_buffer cnn_buffer_size rgb565_buffer rgb565_size (nat k) st of
           (st', Some f) \<Rightarrow> (st', Some f)
         | (st', None) \<Rightarrow>
             capture_line data cnn_buffer cnn_buffer_size rgb565_buffer rgb565_size bound (k + 4) st')
      else (st, None))"
  by pat_completeness auto
termination
  by (relation "measure (\<lambda>(data, cb, cbs, rb, rbs, bound, k, st). nat (bound - k))") auto

declare capture_line.simps [simp del]

text \<open>
  \<^verbatim>\<open>for (int row = 0; row < (int)h; row++)\<close>: wait for a line, set \<^verbatim>\<open>j = 0\<close>, run the pixel
  loop, release the line.
\<close>

function capture_rows ::
  "out_pointer \<Rightarrow> u32 \<Rightarrow> out_pointer \<Rightarrow> u32 \<Rightarrow> int \<Rightarrow> int \<Rightarrow> int \<Rightarrow> capture_state
     \<Rightarrow> capture_state \<times> unit ending" where
  "capture_rows cnn_buffer cnn_buffer_size rgb565_buffer rgb565_size bound h row st =
     (if row < h then
        (case wait_stream_buffer (cs_polls st) of
           None \<Rightarrow> (st, Stalled)
         | Some (data, rest) \<Rightarrow>
             (case capture_line data cnn_buffer cnn_buffer_size rgb565_buffer rgb565_size bound 0
                     (st\<lparr>cs_polls := rest, cs_j := 0\<rparr>) of
                (st', Some f) \<Rightarrow> (st', Crashed f)
              | (st', None) \<Rightarrow>
                  capture_rows cnn_buffer cnn_buffer_size rgb565_buffer rgb565_size bound h
                    (row + 1) st'))
      else (st, Returned ()))"
  by pat_completeness auto
termination
  by (relation "measure (\<lambda>(cb, cbs, rb, rbs, bound, h, row, st). nat (h - row))") auto

declare capture_rows.simps [simp del]

text \<open>
  \<^verbatim>\<open>camera_utils_capture\<close>: the stores made, and how the pass ends. The console output and
  the overflow LED are not part of the model.
\<close>

definition camera_utils_capture ::
  "camera \<Rightarrow> out_pointer \<Rightarrow> u32 \<Rightarrow> out_pointer \<Rightarrow> u32 \<Rightarrow> store list \<times> cam_status_t ending" where
  "camera_utils_capture cam cnn_buffer cnn_buffer_size rgb565_buffer rgb565_size =
     (let w = cam_w cam; h = cam_h cam;
          (st, e) = capture_rows cnn_buffer cnn_buffer_size rgb565_buffer rgb565_size
                      (sint (4 * w)) (sint h) 0
                      \<lparr>cs_cnt = 0, cs_j = 0, cs_stores = [], cs_polls = cam_polls cam\<rparr>
      in case e of
           Returned _ \<Rightarrow>
             (cs_stores st,
              Returned (if cam_overflow_count cam > 0 then CAM_STATUS_OVERFLOW
                        else CAM_STATUS_OK))
         | Crashed f \<Rightarrow> (cs_stores st, Crashed f)
         | Stalled \<Rightarrow> (cs_stores st, Stalled))"

section \<open>The capture cycle: \<^verbatim>\<open>main.c\<close>\<close>

definition INPUT_WORDS :: u32 where
  "INPUT_WORDS = 16384"

definition DATA565_SIZE :: u32 where
  "DATA565_SIZE = (64 * 2) * (64 * 2) * 2"

text \<open>
  The calls a capture cycle makes to the other modules, in order. \<^verbatim>\<open>TFT_ENABLE\<close> and
  \<^verbatim>\<open>SERIAL_STREAM_ENABLE\<close> are defined in \<^verbatim>\<open>app_config.h\<close>, so the code under
  \<^verbatim>\<open>#ifdef\<close> is compiled in; \<^verbatim>\<open>ASCII_ART_ENABLE\<close> is 0. The FIFO of
  \<^verbatim>\<open>inference_load_input\<close> is taken to drain.
\<close>

datatype call =
    Camera_utils_capture
  | Tft_utils_display_cnn_buffer
  | Inference_start
  | Inference_load_input
  | Inference_wait
  | Inference_print_results
  | Serial_print_capture_info
  | Serial_send_image_start
  | Serial_stream_ppm
  | Serial_send_image_end
  | Tft_utils_show_results
  | Tft_utils_print

text \<open>
  \<^verbatim>\<open>run_single_capture\<close>. After an overflow the function stays in \<^verbatim>\<open>while (1) { }\<close>.
\<close>

definition run_single_capture ::
  "camera \<Rightarrow> nat \<Rightarrow> (32 word list \<Rightarrow> nat \<Rightarrow> q15_t list) \<Rightarrow> cnn_hw \<Rightarrow> inference_result_t
     \<Rightarrow> call list \<times> unit ending" where
  "run_single_capture cam CNN_NUM_OUTPUTS softmax_q17p14_q15 hw result =
     (case camera_utils_capture cam Buffer INPUT_WORDS Buffer DATA565_SIZE of
        (_, Crashed f) \<Rightarrow> ([Camera_utils_capture], Crashed f)
      | (_, Stalled) \<Rightarrow> ([Camera_utils_capture], Stalled)
      | (_, Returned cam_ret) \<Rightarrow>
          if cam_ret = CAM_STATUS_OVERFLOW then ([Camera_utils_capture], Stalled)
          else
            let calls = [Camera_utils_capture, Tft_utils_display_cnn_buffer, Inference_start,
                         Inference_load_input, Inference_wait]
            in case inference_wait CNN_NUM_OUTPUTS softmax_q17p14_q15 hw (Some result) of
                 None \<Rightarrow> (calls, Stalled)
               | Some (status, _) \<Rightarrow>
                   if status \<noteq> INFERENCE_OK then (calls, Returned ())
                   else (calls @ [Inference_print_results, Serial_print_capture_info,
                                  Serial_send_image_start, Serial_stream_ppm,
                                  Serial_send_image_end, Tft_utils_show_results],
                         Returned ()))"

text \<open>
  One round of the \<^verbatim>\<open>while (1)\<close> loop of \<^verbatim>\<open>run_live_feed\<close>, with the button not
  pressed: after an overflow the round ends with \<^verbatim>\<open>continue\<close>. A completed round
  prints the frame count, the prediction and one line per class on the display.
\<close>

definition run_live_feed_round ::
  "camera \<Rightarrow> nat \<Rightarrow> (32 word list \<Rightarrow> nat \<Rightarrow> q15_t list) \<Rightarrow> cnn_hw \<Rightarrow> inference_result_t
     \<Rightarrow> call list \<times> unit ending" where
  "run_live_feed_round cam CNN_NUM_OUTPUTS softmax_q17p14_q15 hw result =
     (case camera_utils_capture cam Buffer INPUT_WORDS Buffer DATA565_SIZE of
        (_, Crashed f) \<Rightarrow> ([Camera_utils_capture], Crashed f)
      | (_, Stalled) \<Rightarrow> ([Camera_utils_capture], Stalled)
      | (_, Returned cam_ret) \<Rightarrow>
          if cam_ret = CAM_STATUS_OVERFLOW then ([Camera_utils_capture], Returned ())
          else
            let calls = [Camera_utils_capture, Tft_utils_display_cnn_buffer, Inference_start,
                         Inference_load_input, Inference_wait]
            in case inference_wait CNN_NUM_OUTPUTS softmax_q17p14_q15 hw (Some result) of
                 None \<Rightarrow> (calls, Stalled)
               | Some (status, _) \<Rightarrow>
                   if status \<noteq> INFERENCE_OK then (calls, Returned ())
                   else (calls @ replicate (2 + CNN_NUM_OUTPUTS) Tft_utils_print, Returned ()))"

text \<open>The calls that invoke the accelerator.\<close>

fun accelerator_call :: "call \<Rightarrow> bool" where
  "accelerator_call Inference_start = True"
| "accelerator_call Inference_load_input = True"
| "accelerator_call Inference_wait = True"
| "accelerator_call _ = False"

section \<open>Reference base64 export, following the specification\<close>

text \<open>
  The specification asks for the channel bytes R, G, B of each pixel in row-major order,
  encoded three bytes to four characters with the standard alphabet, padded with
  \<^verbatim>\<open>=\<close> for a final group of one or two bytes, with a line break after every 76
  output characters, between the start and end marker lines. The definitions below say
  this with arithmetic on the 24-bit value of each group, independently of the source.
\<close>

definition spec_alphabet :: string where
  "spec_alphabet =
     ''ABCDEFGHIJKLMNOPQRSTUVWXYZ'' @ ''abcdefghijklmnopqrstuvwxyz'' @ ''0123456789'' @ ''+/''"

fun spec_base64 :: "nat list \<Rightarrow> string" where
  "spec_base64 (a # b # c # rest) =
     (let n = a * 65536 + b * 256 + c
      in [spec_alphabet ! (n div 262144), spec_alphabet ! (n div 4096 mod 64),
          spec_alphabet ! (n div 64 mod 64), spec_alphabet ! (n mod 64)]) @ spec_base64 rest"
| "spec_base64 [a, b] =
     (let n = a * 65536 + b * 256
      in [spec_alphabet ! (n div 262144), spec_alphabet ! (n div 4096 mod 64),
          spec_alphabet ! (n div 64 mod 64), CHR ''=''])"
| "spec_base64 [a] =
     (let n = a * 65536
      in [spec_alphabet ! (n div 262144), spec_alphabet ! (n div 4096 mod 64),
          CHR ''='', CHR ''=''])"
| "spec_base64 [] = []"

function spec_line_breaks :: "string \<Rightarrow> string" where
  "spec_line_breaks s =
     (if length s < 76 then s else take 76 s @ ''\<newline>'' @ spec_line_breaks (drop 76 s))"
  by pat_completeness auto
termination
  by (relation "measure length") auto

declare spec_line_breaks.simps [simp del]

definition spec_pixel_bytes :: "u32 \<Rightarrow> nat list" where
  "spec_pixel_bytes word = (case unpack_pixel word of (r, g, b) \<Rightarrow> [unat r, unat g, unat b])"

definition spec_frame_bytes :: "(nat \<Rightarrow> u32) \<Rightarrow> nat \<Rightarrow> nat \<Rightarrow> nat list" where
  "spec_frame_bytes buf width height =
     concat (map (\<lambda>row. concat (map (\<lambda>col. spec_pixel_bytes (buf (row * width + col)))
                                 [0..<width]))
             [0..<height])"

definition spec_base64_export :: "(nat \<Rightarrow> u32) \<Rightarrow> int \<Rightarrow> int \<Rightarrow> string" where
  "spec_base64_export buf width height =
     ''<<<BASE64_IMG_START>>>\<newline>'' @
     ''WIDTH:'' @ dec_int width @ '',HEIGHT:'' @ dec_int height @ ''\<newline>'' @
     spec_line_breaks (spec_base64 (spec_frame_bytes buf (nat width) (nat height))) @
     ''\<newline>'' @ ''<<<BASE64_IMG_END>>>\<newline>''"

section \<open>Auxiliary notions for the proofs\<close>

text \<open>The four characters written for a complete group.\<close>

definition enc3 :: "u8 \<Rightarrow> u8 \<Rightarrow> u8 \<Rightarrow> string" where
  "enc3 r g b = [b64_c0 [r, g, b], b64_c1 [r, g, b], b64_c2 [r, g, b], b64_c3 [r, g, b]]"

definition enc_word :: "u32 \<Rightarrow> string" where
  "enc_word word = (case unpack_pixel word of (r, g, b) \<Rightarrow> enc3 r g b)"

text \<open>The characters written for a list of groups, starting with a given line length.\<close>

fun emit :: "nat \<Rightarrow> string list \<Rightarrow> string" where
  "emit ll [] = []"
| "emit ll (g # gs) =
     g @ (if ll + 4 \<ge> 76 then ''\<newline>'' @ emit 0 gs else emit (ll + 4) gs)"

definition b64_at :: "(nat \<Rightarrow> u32) \<Rightarrow> nat \<Rightarrow> b64_state \<Rightarrow> b64_state" where
  "b64_at buf idx st = (case unpack_pixel (buf idx) of (r, g, b) \<Rightarrow> fold b64_byte [r, g, b] st)"

definition frame_indices :: "nat \<Rightarrow> nat \<Rightarrow> nat list" where
  "frame_indices width height =
     concat (map (\<lambda>row. map (\<lambda>col. row * width + col) [0..<width]) [0..<height])"

text \<open>Reading the list of stores.\<close>

fun store_in_bounds :: "u32 \<Rightarrow> u32 \<Rightarrow> store \<Rightarrow> bool" where
  "store_in_bounds cnn_buffer_size rgb565_size (Store_cnn i v) = (i < unat cnn_buffer_size)"
| "store_in_bounds cnn_buffer_size rgb565_size (Store_rgb565 i v) = (i < unat rgb565_size)"

fun is_cnn_store :: "store \<Rightarrow> bool" where
  "is_cnn_store (Store_cnn i v) = True"
| "is_cnn_store (Store_rgb565 i v) = False"

fun store_index :: "store \<Rightarrow> nat" where
  "store_index (Store_cnn i v) = i"
| "store_index (Store_rgb565 i v) = i"

definition cnn_indices :: "store list \<Rightarrow> nat list" where
  "cnn_indices log = map store_index (filter is_cnn_store log)"

definition rgb565_stores :: "store list \<Rightarrow> store list" where
  "rgb565_stores log = filter (\<lambda>s. \<not> is_cnn_store s) log"

text \<open>The number of rounds of the pixel loop for a line, from \<^verbatim>\<open>(int)(4 * w)\<close>.\<close>

definition line_pixels :: "int \<Rightarrow> nat" where
  "line_pixels bound = nat ((bound + 3) div 4)"


text \<open>What holds of the state after any number of steps.\<close>

definition capture_inv :: "out_pointer \<Rightarrow> u32 \<Rightarrow> out_pointer \<Rightarrow> u32 \<Rightarrow> capture_state \<Rightarrow> bool" where
  "capture_inv cb cbs rb rbs st \<longleftrightarrow>
     (\<forall>s \<in> set (cs_stores st). store_in_bounds cbs rbs s)
     \<and> cnn_indices (cs_stores st) = [0..<cs_cnt st]
     \<and> cs_cnt st \<le> unat cbs
     \<and> (rb = NULL \<longrightarrow> rgb565_stores (cs_stores st) = [])"

section \<open>Verification\<close>

subsection \<open>Pixel codec round trip\<close>

lemma byte_bit_high: "8 \<le> n \<Longrightarrow> \<not> bit (x :: u8) n"
  by (auto dest: bit_imp_le_length)

lemma low_byte: "(ucast (w AND 0xFF :: u32) :: u8) = ucast w"
proof -
  have "(0xFF :: u32) = mask 8" by (simp add: mask_eq_exp_minus_1)
  then have "w AND 0xFF = take_bit 8 w" by (simp add: take_bit_eq_mask)
  then show ?thesis
    by (auto intro!: bit_word_eqI simp add: bit_simps)
qed

lemma xor_bias_twice: "((w :: u32) XOR 0x00808080) XOR 0x00808080 = w"
  by (simp add: xor.assoc)

lemma packed_bytes:
  fixes r g b :: u8
  defines "w \<equiv> push_bit 16 (ucast b :: u32) OR push_bit 8 (ucast g :: u32) OR (ucast r :: u32)"
  shows "(ucast w :: u8) = r" and "(ucast (drop_bit 8 w) :: u8) = g"
    and "(ucast (drop_bit 16 w) :: u8) = b"
  unfolding w_def
  by (auto intro!: bit_word_eqI simp add: bit_simps byte_bit_high)

lemma unpack_pack_pixel: "unpack_pixel (pack_pixel r g b) = (r, g, b)"
  unfolding unpack_pixel_def pack_pixel_def Let_def
  by (simp only: xor_bias_twice low_byte packed_bytes)

text \<open>
  C1. For every byte triple, the word \<^verbatim>\<open>camera_utils_capture\<close> stores for a pixel is
  decoded by the exporters back to exactly the three bytes that went in.
\<close>

theorem C1_codec_round_trip: "unpack_pixel (pack_pixel r g b) = (r, g, b)"
  unfolding unpack_pixel_def pack_pixel_def Let_def
  by (simp only: xor_bias_twice low_byte packed_bytes)

subsection \<open>Arg-max and confidence\<close>

lemma find_max_inv:
  assumes "i \<le> n" "n \<le> length sm" "max_idx < i" "sm ! max_idx = max_val"
    "\<forall>j<i. sm ! j \<le>s max_val" "\<forall>j<max_idx. sm ! j <s max_val"
    "find_max sm n i max_val max_idx = (mv, k)"
  shows "k < n \<and> sm ! k = mv \<and> (\<forall>j<n. sm ! j \<le>s mv) \<and> (\<forall>j<k. sm ! j <s mv)"
  using assms
proof (induction sm n i max_val max_idx rule: find_max.induct)
  case (1 sm n i max_val max_idx)
  note step = find_max.simps [of sm n i max_val max_idx]
  show ?case
  proof (cases "i < n")
    case False
    with "1.prems"(1) have "i = n" by simp
    moreover from False "1.prems"(7) have "mv = max_val" "k = max_idx"
      by (simp_all add: step)
    ultimately show ?thesis using "1.prems"(3-6) by simp
  next
    case lt: True
    show ?thesis
    proof (cases "max_val <s sm ! i")
      case True
      have a: "\<forall>j<i + 1. sm ! j \<le>s sm ! i" using "1.prems"(5) True
        by (auto simp: less_Suc_eq word_sless_alt word_sle_eq)
      have b: "\<forall>j<i. sm ! j <s sm ! i" using "1.prems"(5) True
        by (auto simp: word_sless_alt word_sle_eq)
      from "1.prems"(7) lt True have c: "find_max sm n (i + 1) (sm ! i) i = (mv, k)"
        by (simp add: step)
      have "i + 1 \<le> n" "i < i + 1" using lt by simp_all
      from "1.IH"(1) [OF lt True this(1) "1.prems"(2) this(2) refl a b c]
      show ?thesis .
    next
      case False
      have a: "\<forall>j<i + 1. sm ! j \<le>s max_val" using "1.prems"(5) False
        by (auto simp: less_Suc_eq word_sless_alt word_sle_eq)
      from "1.prems"(7) lt False have c: "find_max sm n (i + 1) max_val max_idx = (mv, k)"
        by (simp add: step)
      have "i + 1 \<le> n" "max_idx < i + 1" using lt "1.prems"(3) by simp_all
      from "1.IH"(2) [OF lt False this(1) "1.prems"(2) this(2) "1.prems"(4) a "1.prems"(6) c]
      show ?thesis .
    qed
  qed
qed

lemma find_max_first:
  assumes "0 < n" "length sm = n" "find_max sm n 1 (sm ! 0) 0 = (mv, k)"
  shows "k < n \<and> sm ! k = mv \<and> (\<forall>j<n. sint (sm ! j) \<le> sint mv) \<and> (\<forall>j<k. sint (sm ! j) < sint mv)"
proof -
  have a: "\<forall>j<1. sm ! j \<le>s sm ! 0"
  proof (intro allI impI)
    fix j :: nat assume "j < 1"
    then have "j = 0" by simp
    then show "sm ! j \<le>s sm ! 0" by (simp add: word_sle_eq)
  qed
  have b: "\<forall>j<(0::nat). sm ! j <s sm ! 0" by simp
  have c: "1 \<le> n" "n \<le> length sm" "(0::nat) < 1"
    using assms(1,2) by simp_all
  have "k < n \<and> sm ! k = mv \<and> (\<forall>j<n. sm ! j \<le>s mv) \<and> (\<forall>j<k. sm ! j <s mv)"
    by (rule find_max_inv [OF c refl a b assms(3)])
  then show ?thesis unfolding word_sless_alt word_sle_eq .
qed

lemma inference_wait_returns:
  assumes "wait_cnn_time (cnn_time_reads hw) = Some t"
    and "find_max (smax (cnn_unload hw) N) N 1 (smax (cnn_unload hw) N ! 0) 0 = (mv, k)"
  shows "inference_wait N smax hw (Some res) =
           Some (INFERENCE_OK,
                 Some (res\<lparr>inference_time_us := t, raw_output := cnn_unload hw,
                            softmax := smax (cnn_unload hw) N, predicted_class := int k,
                            confidence_percent := to_percent mv\<rparr>))"
  using assms by (simp add: inference_wait_def)

lemma sint_q15_bounds: "- 32768 \<le> sint (v :: q15_t) \<and> sint v < 32768"
  using sint_ge [of v] sint_lt [of v] by simp

lemma sint_scast_q15: "sint (scast (v :: q15_t) :: 32 word) = sint v"
  by (rule sint_up_scast) (simp add: is_up)

lemma to_percent_eq: "to_percent v = sint v * 100 div 32768"
proof -
  have "sint ((scast v :: 32 word) * 100) = signed_take_bit 31 (sint v * 100)"
    by (simp add: sint_word_ariths sint_scast_q15)
  also have "\<dots> = sint v * 100"
    using sint_q15_bounds [of v] by (intro signed_take_bit_int_eq_self) auto
  finally show ?thesis
    by (simp add: to_percent_def sint_signed_drop_bit_eq drop_bit_eq_div)
qed

lemma to_percent_mono: "sint a \<le> sint b \<Longrightarrow> to_percent a \<le> to_percent b"
  by (simp add: to_percent_eq zdiv_mono1)


text \<open>
  C2. Whenever the accelerator completes, \<^verbatim>\<open>inference_wait\<close> returns with
  \<^verbatim>\<open>predicted_class\<close> an index of a maximal softmax entry such that every entry at a
  lower index is strictly smaller: the lowest index among those sharing the maximum.
  The witness is the vector \<^verbatim>\<open>[100, 100]\<close>, classified as class 0.
\<close>

theorem C2_argmax_lowest_index:
  assumes "0 < N" and "length (smax (cnn_unload hw) N) = N"
    and "wait_cnn_time (cnn_time_reads hw) = Some t"
  shows "\<exists>res'. inference_wait N smax hw (Some res) = Some (INFERENCE_OK, Some res')
           \<and> softmax res' = smax (cnn_unload hw) N
           \<and> 0 \<le> predicted_class res' \<and> nat (predicted_class res') < N
           \<and> (\<forall>j<N. sint (softmax res' ! j) \<le> sint (softmax res' ! nat (predicted_class res')))
           \<and> (\<forall>j<nat (predicted_class res').
                 sint (softmax res' ! j) < sint (softmax res' ! nat (predicted_class res')))"
proof -
  let ?sm = "smax (cnn_unload hw) N"
  obtain mv k where fm: "find_max ?sm N 1 (?sm ! 0) 0 = (mv, k)"
    by (cases "find_max ?sm N 1 (?sm ! 0) 0")
  note spec = find_max_first [OF assms(1,2) fm]
  note ret = inference_wait_returns [of hw t smax N mv k res, OF assms(3) fm]
  show ?thesis
    apply (rule exI, rule conjI, rule ret)
    using spec by simp
qed

theorem C2_argmax_lowest_index_witness:
  "0 < (2::nat) \<and> length ([100, 100] :: q15_t list) = 2
   \<and> wait_cnn_time [0, 0, 1234] = Some 1234
   \<and> (\<exists>res'. inference_wait 2 (\<lambda>raw n. [100, 100])
                  \<lparr>cnn_time_reads = [0, 0, 1234], cnn_unload = [5, 7]\<rparr>
                  (Some \<lparr>raw_output = [0, 0], softmax = [0, 0], predicted_class = 1,
                         confidence_percent = 0, inference_time_us = 0\<rparr>)
                = Some (INFERENCE_OK, Some res')
              \<and> softmax res' = [100, 100] \<and> predicted_class res' = 0)"
proof -
  let ?hw = "\<lparr>cnn_time_reads = [0, 0, 1234], cnn_unload = [5, 7]\<rparr>"
  let ?r = "\<lparr>raw_output = [0, 0], softmax = [0, 0], predicted_class = 1,
             confidence_percent = 0, inference_time_us = 0\<rparr>"
  have w: "wait_cnn_time (cnn_time_reads ?hw) = Some 1234" by simp
  have l: "length ((\<lambda>raw n. [100, 100] :: q15_t list) (cnn_unload ?hw) 2) = 2" by simp
  have p: "0 < (2::nat)" by simp
  from C2_argmax_lowest_index [of 2 "\<lambda>raw n. [100, 100]" ?hw 1234 ?r, OF p l w]
  obtain res' where r: "inference_wait 2 (\<lambda>raw n. [100, 100]) ?hw (Some ?r)
                          = Some (INFERENCE_OK, Some res')"
     and s: "softmax res' = [100, 100]"
     and nn: "0 \<le> predicted_class res'" and lt: "nat (predicted_class res') < 2"
     and lo: "\<forall>j<nat (predicted_class res').
                 sint (softmax res' ! j) < sint (softmax res' ! nat (predicted_class res'))"
    by blast
  have "nat (predicted_class res') = 0"
  proof (rule ccontr)
    assume "nat (predicted_class res') \<noteq> 0"
    with lt have one: "nat (predicted_class res') = 1" by linarith
    from lo have "sint (softmax res' ! 0) < sint (softmax res' ! 1)"
      unfolding one by simp
    then show False unfolding s by simp
  qed
  with nn have "predicted_class res' = 0" by simp
  with r s have "\<exists>res'. inference_wait 2 (\<lambda>raw n. [100, 100]) ?hw (Some ?r)
                          = Some (INFERENCE_OK, Some res')
              \<and> softmax res' = [100, 100] \<and> predicted_class res' = 0" by blast
  then show ?thesis by simp
qed




text \<open>
  C9. Take any completed run and replace the winning entry of the softmax vector by a
  value that is at least as large, all other entries unchanged: \<^verbatim>\<open>inference_wait\<close>
  again returns, and its \<^verbatim>\<open>confidence_percent\<close> is not smaller.
\<close>

theorem C9_confidence_monotone:
  assumes "0 < N" and "length (smax (cnn_unload hw) N) = N"
    and "wait_cnn_time (cnn_time_reads hw) = Some t"
    and "inference_wait N smax hw (Some res) = Some (INFERENCE_OK, Some r1)"
    and "sint (smax (cnn_unload hw) N ! nat (predicted_class r1)) \<le> sint v'"
  shows "\<exists>r2. inference_wait N (\<lambda>raw n. (smax raw n)[nat (predicted_class r1) := v']) hw (Some res)
                = Some (INFERENCE_OK, Some r2)
              \<and> confidence_percent r1 \<le> confidence_percent r2"
proof -
  let ?sm = "smax (cnn_unload hw) N"
  obtain mv k where fm: "find_max ?sm N 1 (?sm ! 0) 0 = (mv, k)"
    by (cases "find_max ?sm N 1 (?sm ! 0) 0")
  note spec1 = find_max_first [OF assms(1,2) fm]
  note ret1 = inference_wait_returns [of hw t smax N mv k res, OF assms(3) fm]
  from assms(4) have r1: "predicted_class r1 = int k" "confidence_percent r1 = to_percent mv"
    unfolding ret1 by auto
  let ?smax' = "\<lambda>raw n. (smax raw n)[nat (predicted_class r1) := v']"
  let ?sm' = "?smax' (cnn_unload hw) N"
  have sm': "?sm' = ?sm[k := v']" using r1 by simp
  have len': "length ?sm' = N" using assms(2) by simp
  obtain mv' k' where fm': "find_max ?sm' N 1 (?sm' ! 0) 0 = (mv', k')"
    by (cases "find_max ?sm' N 1 (?sm' ! 0) 0")
  note spec2 = find_max_first [OF assms(1) len' fm']
  note ret2 = inference_wait_returns [of hw t ?smax' N mv' k' res, OF assms(3) fm']
  have "k < N" using spec1 by simp
  then have "?sm' ! k = v'" unfolding sm' using assms(2) by simp
  moreover have "sint (?sm' ! k) \<le> sint mv'" using spec2 \<open>k < N\<close> by blast
  ultimately have "sint v' \<le> sint mv'" by simp
  moreover have "sint mv \<le> sint v'" using assms(5) spec1 r1 by simp
  ultimately have "to_percent mv \<le> to_percent mv'"
    by (intro to_percent_mono) linarith
  then show ?thesis
    apply (intro exI conjI)
     apply (rule ret2)
    using r1 by simp
qed

theorem C9_confidence_monotone_witness:
  "0 < (2::nat) \<and> length ([300, 20000] :: q15_t list) = 2
   \<and> wait_cnn_time [0, 9] = Some 9
   \<and> inference_wait 2 (\<lambda>raw n. [300, 20000])
          \<lparr>cnn_time_reads = [0, 9], cnn_unload = [5, 7]\<rparr>
          (Some \<lparr>raw_output = [0, 0], softmax = [0, 0], predicted_class = 0,
                 confidence_percent = 0, inference_time_us = 0\<rparr>)
        = Some (INFERENCE_OK,
                Some \<lparr>raw_output = [5, 7], softmax = [300, 20000], predicted_class = 1,
                       confidence_percent = 61, inference_time_us = 9\<rparr>)
   \<and> sint (([300, 20000] :: q15_t list) ! 1) \<le> sint (30000 :: q15_t)
   \<and> (\<exists>r2. inference_wait 2 (\<lambda>raw n. [300, 20000][1 := 30000])
                \<lparr>cnn_time_reads = [0, 9], cnn_unload = [5, 7]\<rparr>
                (Some \<lparr>raw_output = [0, 0], softmax = [0, 0], predicted_class = 0,
                       confidence_percent = 0, inference_time_us = 0\<rparr>)
              = Some (INFERENCE_OK, Some r2)
            \<and> 61 \<le> confidence_percent r2)"
proof -
  let ?hw = "\<lparr>cnn_time_reads = [0, 9], cnn_unload = [5, 7]\<rparr>"
  let ?r = "\<lparr>raw_output = [0, 0], softmax = [0, 0], predicted_class = 0,
             confidence_percent = 0, inference_time_us = 0\<rparr>"
  let ?r1 = "\<lparr>raw_output = [5, 7], softmax = [300, 20000], predicted_class = 1,
                       confidence_percent = 61, inference_time_us = 9\<rparr>"
  have w: "wait_cnn_time (cnn_time_reads ?hw) = Some 9" by simp
  have l: "length ((\<lambda>raw n. [300, 20000] :: q15_t list) (cnn_unload ?hw) 2) = 2" by simp
  have p: "0 < (2::nat)" by simp
  have fm: "find_max [300, 20000] 2 1 300 0 = (20000, 1)"
    by code_simp
  then have fm': "find_max [300, 20000] 2 (Suc 0) 300 0 = (20000, 1)" by simp
  have run: "inference_wait 2 (\<lambda>raw n. [300, 20000]) ?hw (Some ?r) = Some (INFERENCE_OK, Some ?r1)"
    by (simp add: inference_wait_def fm' to_percent_eq)
  have v: "sint ((\<lambda>raw n. [300, 20000] :: q15_t list) (cnn_unload ?hw) 2 ! nat (predicted_class ?r1))
             \<le> sint (30000 :: q15_t)" by simp
  from C9_confidence_monotone [of 2 "\<lambda>raw n. [300, 20000]" ?hw 9 ?r ?r1 30000, OF p l w run v]
  have "\<exists>r2. inference_wait 2 (\<lambda>raw n. [300, 20000][1 := 30000]) ?hw (Some ?r)
              = Some (INFERENCE_OK, Some r2) \<and> 61 \<le> confidence_percent r2"
    by simp
  with run show ?thesis by simp
qed

subsection \<open>Base64 export\<close>

lemma and_mask_nat: "(x::nat) AND 3 = x mod 4" "(x::nat) AND 15 = x mod 16" "(x::nat) AND 63 = x mod 64"
proof -
  have "x AND mask 2 = x mod 2 ^ 2" "x AND mask 4 = x mod 2 ^ 4" "x AND mask 6 = x mod 2 ^ 6"
    by (simp_all only: take_bit_eq_mask [symmetric] take_bit_eq_mod)
  then show "(x::nat) AND 3 = x mod 4" "(x::nat) AND 15 = x mod 16" "(x::nat) AND 63 = x mod 64"
    by (simp_all add: mask_eq_exp_minus_1)
qed

lemma or_plus_nat:
  fixes a b :: nat
  assumes "b < 2 ^ k"
  shows "a * 2 ^ k OR b = a * 2 ^ k + b"
proof -
  have b: "take_bit k b = b" using assms by (simp add: take_bit_nat_eq_self)
  have "\<not> bit (push_bit k a) n \<or> \<not> bit (take_bit k b) n" for n
    by (auto simp add: bit_simps)
  then have "push_bit k a + take_bit k b = push_bit k a OR take_bit k b"
    by (rule disjunctive_add)
  then show ?thesis by (simp add: b push_bit_eq_mult)
qed

lemma unat_byte_word: "unat (ucast (r :: u8) :: u32) = unat r"
proof -
  have "unat r < 2 ^ LENGTH(8)" by (rule unsigned_less)
  then have "unat r < 2 ^ 32" by simp
  then show ?thesis by (simp add: unsigned_ucast_eq take_bit_nat_eq_self)
qed

lemma unat_byte_lt: "unat (r :: u8) < 256"
proof -
  have "unat r < 2 ^ LENGTH(8)" by (rule unsigned_less)
  then show ?thesis by simp
qed

lemma unat_and_word: "unat ((w :: u32) AND v) = unat w AND unat v"
  by (rule unsigned_and_eq)

lemma unat_or_word: "unat ((w :: u32) OR v) = unat w OR unat v"
  by (rule unsigned_or_eq)

lemma unat_drop_word: "unat (drop_bit k (w :: u32)) = unat w div 2 ^ k"
  unfolding unat_drop_bit_eq by (rule drop_bit_eq_div)

lemma unat_push_small: "unat (w :: u32) * 2 ^ k < 2 ^ 32 \<Longrightarrow> unat (push_bit k w) = unat w * 2 ^ k"
  unfolding unsigned_push_bit_eq by (simp add: push_bit_eq_mult take_bit_nat_eq_self)

lemma b64_index0: "unat (drop_bit 2 (ucast (r::u8) :: u32) AND 0x3F) = unat r div 4"
  using unat_byte_lt [of r]
  by (simp add: unat_and_word unat_drop_word unat_byte_word and_mask_nat)

lemma b64_index3: "unat ((ucast (b::u8) :: u32) AND 0x3F) = unat b mod 64"
  by (simp add: unat_and_word unat_byte_word and_mask_nat)

lemma b64_index1: "unat (push_bit 4 ((ucast (r::u8) :: u32) AND 0x03) OR (drop_bit 4 (ucast (g::u8) :: u32) AND 0x0F)) = (unat r mod 4) * 16 + unat g div 16"
proof -
  have a: "unat ((ucast r :: u32) AND 0x03) = unat r mod 4"
    by (simp add: unat_and_word unat_byte_word and_mask_nat)
  have "unat (push_bit 4 ((ucast r :: u32) AND 0x03)) = unat ((ucast r :: u32) AND 0x03) * 2 ^ 4"
    by (rule unat_push_small) (simp add: a)
  then have p: "unat (push_bit 4 ((ucast r :: u32) AND 0x03)) = unat r mod 4 * 2 ^ 4"
    by (simp only: a)
  have d: "unat (drop_bit 4 (ucast g :: u32) AND 0x0F) = unat g div 16"
    using unat_byte_lt [of g]
    by (simp add: unat_and_word unat_drop_word unat_byte_word and_mask_nat)
  have "unat g div 16 < 2 ^ 4" using unat_byte_lt [of g] by simp
  from or_plus_nat [OF this, of "unat r mod 4"] show ?thesis
    by (simp only: unat_or_word p d) simp
qed

lemma b64_index2: "unat (push_bit 2 ((ucast (g::u8) :: u32) AND 0x0F) OR (drop_bit 6 (ucast (b::u8) :: u32) AND 0x03)) = (unat g mod 16) * 4 + unat b div 64"
proof -
  have a: "unat ((ucast g :: u32) AND 0x0F) = unat g mod 16"
    by (simp add: unat_and_word unat_byte_word and_mask_nat)
  have "unat (push_bit 2 ((ucast g :: u32) AND 0x0F)) = unat ((ucast g :: u32) AND 0x0F) * 2 ^ 2"
    by (rule unat_push_small) (simp add: a)
  then have p: "unat (push_bit 2 ((ucast g :: u32) AND 0x0F)) = unat g mod 16 * 2 ^ 2"
    by (simp only: a)
  have d: "unat (drop_bit 6 (ucast b :: u32) AND 0x03) = unat b div 64"
    using unat_byte_lt [of b]
    by (simp add: unat_and_word unat_drop_word unat_byte_word and_mask_nat)
  have "unat b div 64 < 2 ^ 2" using unat_byte_lt [of b] by simp
  from or_plus_nat [OF this, of "unat g mod 16"] show ?thesis
    by (simp only: unat_or_word p d) simp
qed

lemma split_div_mod:
  fixes x d r q :: nat
  assumes "x = q * d + r" "r < d"
  shows "x div d = q" and "x mod d = r"
  using assms by simp_all

lemma scale_split: "(x::nat) * c = x div d * (d * c) + x mod d * c"
proof -
  have "x * c = (x div d * d + x mod d) * c" by simp
  also have "\<dots> = x div d * (d * c) + x mod d * c"
    by (simp only: add_mult_distrib mult.assoc)
  finally show ?thesis .
qed

lemma sextets:
  fixes R G B :: nat
  assumes "R < 256" "G < 256" "B < 256"
  defines "n \<equiv> R * 65536 + G * 256 + B"
  shows "n div 262144 = R div 4"
    and "n div 4096 mod 64 = R mod 4 * 16 + G div 16"
    and "n div 64 mod 64 = G mod 16 * 4 + B div 64"
    and "n mod 64 = B mod 64"
proof -
  have R: "R = R div 4 * 4 + R mod 4" and G: "G = G div 16 * 16 + G mod 16"
    and B: "B = B div 64 * 64 + B mod 64" by simp_all
  have "n = R div 4 * 262144 + (R mod 4 * 65536 + G * 256 + B)"
    unfolding n_def using scale_split [of R 65536 4] by simp
  moreover have "R mod 4 * 65536 + G * 256 + B < 262144"
  proof -
    have "R mod 4 \<le> 3" by simp
    then have "R mod 4 * 65536 \<le> 3 * 65536" by (rule mult_le_mono1)
    moreover have "G * 256 \<le> 255 * 256" using assms(2) by simp
    ultimately show ?thesis using assms(3) by simp
  qed
  ultimately show "n div 262144 = R div 4" by (rule split_div_mod)
  have "n = (R * 16 + G div 16) * 4096 + (G mod 16 * 256 + B)"
    unfolding n_def using scale_split [of G 256 16] by (simp add: add_mult_distrib)
  moreover have "G mod 16 * 256 + B < 4096"
  proof -
    have "G mod 16 \<le> 15" by simp
    then have "G mod 16 * 256 \<le> 15 * 256" by (rule mult_le_mono1)
    then show ?thesis using assms(3) by simp
  qed
  ultimately have d1: "n div 4096 = R * 16 + G div 16" by (rule split_div_mod)
  have "R * 16 + G div 16 = R div 4 * 64 + (R mod 4 * 16 + G div 16)"
    using scale_split [of R 16 4] by simp
  moreover have "R mod 4 * 16 + G div 16 < 64"
  proof -
    have "R mod 4 \<le> 3" by simp
    then have "R mod 4 * 16 \<le> 3 * 16" by (rule mult_le_mono1)
    moreover have "G div 16 < 16" using assms(2) by simp
    ultimately show ?thesis by simp
  qed
  ultimately have "(R * 16 + G div 16) mod 64 = R mod 4 * 16 + G div 16"
    by (rule split_div_mod)
  then show "n div 4096 mod 64 = R mod 4 * 16 + G div 16" by (simp only: d1)
  have "n = (R * 1024 + G * 4 + B div 64) * 64 + B mod 64"
    unfolding n_def using scale_split [of B 1 64] by (simp add: add_mult_distrib)
  moreover have "B mod 64 < 64" by simp
  ultimately have d2: "n div 64 = R * 1024 + G * 4 + B div 64" and m2: "n mod 64 = B mod 64"
    by (rule split_div_mod)+
  show "n mod 64 = B mod 64" by (rule m2)
  have "R * 1024 + G * 4 + B div 64 = (R * 16 + G div 16) * 64 + (G mod 16 * 4 + B div 64)"
    using scale_split [of G 4 16] by (simp add: add_mult_distrib)
  moreover have "G mod 16 * 4 + B div 64 < 64"
  proof -
    have "G mod 16 \<le> 15" by simp
    then have "G mod 16 * 4 \<le> 15 * 4" by (rule mult_le_mono1)
    moreover have "B div 64 < 4" using assms(3) by simp
    ultimately show ?thesis by simp
  qed
  ultimately have "(R * 1024 + G * 4 + B div 64) mod 64 = G mod 16 * 4 + B div 64"
    by (rule split_div_mod)
  then show "n div 64 mod 64 = G mod 16 * 4 + B div 64" by (simp only: d2)
qed
lemma table_alphabet: "base64_table = spec_alphabet"
  by (simp add: base64_table_def spec_alphabet_def)

lemma group_state:
  assumes "triplet_idx st = 0" "length (triplet st) = 3"
  shows "fold b64_byte [r, g, b] st =
           st\<lparr>triplet := [r, g, b], triplet_idx := 0,
              line_len := (if line_len st + 4 \<ge> 76 then 0 else line_len st + 4),
              out := out st @ enc3 r g b @ (if line_len st + 4 \<ge> 76 then ''\<newline>'' else [])\<rparr>"
proof -
  obtain x y z where t: "triplet st = [x, y, z]"
    using assms(2) by (auto simp: length_Suc_conv numeral_3_eq_3)
  show ?thesis
    using assms(1) t by (simp add: b64_byte_def Let_def enc3_def)
qed

lemma b64_chars:
  "b64_c0 [r, g, b] = spec_alphabet ! (unat r div 4)"
  "b64_c1 [r, g, b] = spec_alphabet ! (unat r mod 4 * 16 + unat g div 16)"
  "b64_c2 [r, g, b] = spec_alphabet ! (unat g mod 16 * 4 + unat b div 64)"
  "b64_c3 [r, g, b] = spec_alphabet ! (unat b mod 64)"
proof -
  have n: "[r, g, b] ! 0 = r" "[r, g, b] ! 1 = g" "[r, g, b] ! 2 = b" by simp_all
  show "b64_c0 [r, g, b] = spec_alphabet ! (unat r div 4)"
    unfolding b64_c0_def by (simp only: n b64_index0 table_alphabet)
  show "b64_c1 [r, g, b] = spec_alphabet ! (unat r mod 4 * 16 + unat g div 16)"
    unfolding b64_c1_def by (simp only: n b64_index1 table_alphabet)
  show "b64_c2 [r, g, b] = spec_alphabet ! (unat g mod 16 * 4 + unat b div 64)"
    unfolding b64_c2_def by (simp only: n b64_index2 table_alphabet)
  show "b64_c3 [r, g, b] = spec_alphabet ! (unat b mod 64)"
    unfolding b64_c3_def by (simp only: n b64_index3 table_alphabet)
qed

lemma enc3_spec: "enc3 r g b = spec_base64 [unat r, unat g, unat b]"
  using sextets [OF unat_byte_lt [of r] unat_byte_lt [of g] unat_byte_lt [of b]]
  by (simp add: enc3_def b64_chars Let_def)

lemma pad1_spec: "[b64_c0 [a, 0, 0], b64_c1 [a, 0, 0], CHR ''='', CHR ''=''] = spec_base64 [unat a]"
  using sextets [OF unat_byte_lt [of a], of 0 0]
  by (simp add: b64_chars Let_def)

lemma pad2_spec:
  "[b64_c0 [a, b, 0], b64_c1 [a, b, 0], b64_c2 [a, b, 0], CHR ''=''] = spec_base64 [unat a, unat b]"
  using sextets [OF unat_byte_lt [of a] unat_byte_lt [of b], of 0]
  by (simp add: b64_chars Let_def)

lemma b64_pixel_at: "b64_pixel buf w row = (\<lambda>col. b64_at buf (row * w + col))"
  by (intro ext) (simp add: b64_pixel_def b64_at_def Let_def)

lemma nested_fold_indices:
  "fold (\<lambda>row. fold (b64_pixel buf w row) cols) rows st =
   fold (b64_at buf) (concat (map (\<lambda>row. map (\<lambda>col. row * w + col) cols) rows)) st"
proof (induction rows arbitrary: st)
  case Nil
  show ?case by simp
next
  case (Cons row rows)
  have "fold (b64_pixel buf w row) cols st = fold (b64_at buf) (map (\<lambda>col. row * w + col) cols) st"
    by (simp add: fold_map comp_def b64_pixel_at)
  then show ?case using Cons.IH by simp
qed

lemma fold_b64_at:
  assumes "triplet_idx st = 0" "length (triplet st) = 3"
  shows "triplet_idx (fold (b64_at buf) is st) = 0
       \<and> out (fold (b64_at buf) is st) = out st @ emit (line_len st) (map (\<lambda>i. enc_word (buf i)) is)"
  using assms
proof (induction "is" arbitrary: st)
  case Nil
  then show ?case by simp
next
  case (Cons i "is")
  obtain r g b where u: "unpack_pixel (buf i) = (r, g, b)" by (cases "unpack_pixel (buf i)")
  let ?st = "b64_at buf i st"
  have step: "?st = st\<lparr>triplet := [r, g, b], triplet_idx := 0,
              line_len := (if line_len st + 4 \<ge> 76 then 0 else line_len st + 4),
              out := out st @ enc3 r g b @ (if line_len st + 4 \<ge> 76 then ''\<newline>'' else [])\<rparr>"
    unfolding b64_at_def u using group_state [OF Cons.prems] by simp
  have a: "triplet_idx ?st = 0" and b: "length (triplet ?st) = 3" by (simp_all add: step)
  from Cons.IH [OF a b] show ?case
    by (simp add: step enc_word_def u)
qed

lemma emit_line_breaks:
  assumes "\<forall>g \<in> set gs. length g = 4" "ll \<le> 72" "4 dvd ll"
  shows "emit ll gs =
           (if length (concat gs) < 76 - ll then concat gs
            else take (76 - ll) (concat gs) @ ''\<newline>'' @ spec_line_breaks (drop (76 - ll) (concat gs)))"
  using assms
proof (induction gs arbitrary: ll)
  case Nil
  then show ?case by simp
next
  case (Cons g gs)
  have lg: "length g = 4" and rest: "\<forall>g \<in> set gs. length g = 4" using Cons.prems(1) by simp_all
  show ?case
  proof (cases "ll = 72")
    case True
    have "emit 0 gs = spec_line_breaks (concat gs)"
      using Cons.IH [OF rest, of 0] by (simp add: spec_line_breaks.simps [of "concat gs"])
    then show ?thesis using True lg by simp
  next
    case False
    with Cons.prems(2,3) have lt: "ll + 4 \<le> 72" by (auto elim!: dvdE)
    have dv: "4 dvd ll + 4" using Cons.prems(3) by simp
    define k where "k = 72 - ll"
    have k: "76 - ll = 4 + k" "76 - (ll + 4) = k" "\<not> 76 \<le> ll + 4"
      using lt by (simp_all add: k_def)
    have ih: "emit (ll + 4) gs =
           (if length (concat gs) < k then concat gs
            else take k (concat gs) @ ''\<newline>'' @ spec_line_breaks (drop k (concat gs)))"
      using Cons.IH [OF rest lt dv] by (simp only: k)
    show ?thesis
      unfolding k emit.simps concat.simps by (simp add: ih lg k)
  qed
qed

lemma emit_spec:
  assumes "\<forall>g \<in> set gs. length g = 4"
  shows "emit 0 gs = spec_line_breaks (concat gs)"
  using emit_line_breaks [OF assms, of 0] by (simp add: spec_line_breaks.simps [of "concat gs"])

lemma spec_base64_pixels:
  "spec_base64 (concat (map (\<lambda>i. spec_pixel_bytes (buf i)) is)) = concat (map (\<lambda>i. enc_word (buf i)) is)"
proof (induction "is")
  case Nil
  show ?case by simp
next
  case (Cons i "is")
  obtain r g b where u: "unpack_pixel (buf i) = (r, g, b)" by (cases "unpack_pixel (buf i)")
  have "enc_word (buf i) = spec_base64 [unat r, unat g, unat b]"
    by (simp add: enc_word_def u enc3_spec)
  then show ?case using Cons.IH by (simp add: spec_pixel_bytes_def u Let_def)
qed

lemma concat_rows:
  "concat (map (\<lambda>row. concat (map (\<lambda>col. f (row * w + col)) cols)) rows) =
   concat (map f (concat (map (\<lambda>row. map (\<lambda>col. row * w + col) cols) rows)))"
  by (induction rows) (simp_all add: comp_def)

lemma spec_frame_bytes_indices:
  "spec_frame_bytes buf w h = concat (map (\<lambda>i. spec_pixel_bytes (buf i)) (frame_indices w h))"
  unfolding spec_frame_bytes_def frame_indices_def by (rule concat_rows)

lemma enc_word_length: "length (enc_word w) = 4"
  by (cases "unpack_pixel w") (simp add: enc_word_def enc3_def)

lemma serial_stream_base64_spec:
  "serial_stream_base64 (Some buf) width height = spec_base64_export buf width height"
proof -
  let ?hdr = "''<<<BASE64_IMG_START>>>\<newline>'' @
              ''WIDTH:'' @ dec_int width @ '',HEIGHT:'' @ dec_int height @ ''\<newline>''"
  let ?st0 = "\<lparr>triplet = [0, 0, 0], triplet_idx = 0, line_len = 0, out = ?hdr\<rparr>"
  let ?is = "frame_indices (nat width) (nat height)"
  let ?st1 = "fold (b64_at buf) ?is ?st0"
  have loops: "fold (\<lambda>row. fold (b64_pixel buf (nat width) row) [0..<nat width]) [0..<nat height] ?st0 = ?st1"
    unfolding frame_indices_def by (rule nested_fold_indices)
  have f: "triplet_idx ?st1 = 0
       \<and> out ?st1 = out ?st0 @ emit (line_len ?st0) (map (\<lambda>i. enc_word (buf i)) ?is)"
    by (rule fold_b64_at) simp_all
  then have idx: "triplet_idx ?st1 = 0"
    and o: "out ?st1 = ?hdr @ emit 0 (map (\<lambda>i. enc_word (buf i)) ?is)" by simp_all
  have "emit 0 (map (\<lambda>i. enc_word (buf i)) ?is) = spec_line_breaks (concat (map (\<lambda>i. enc_word (buf i)) ?is))"
    by (rule emit_spec) (auto simp: enc_word_length)
  also have "\<dots> = spec_line_breaks (spec_base64 (spec_frame_bytes buf (nat width) (nat height)))"
    by (simp only: spec_frame_bytes_indices spec_base64_pixels)
  finally have body: "out ?st1 = ?hdr @ spec_line_breaks (spec_base64 (spec_frame_bytes buf (nat width) (nat height)))"
    using o by simp
  have rem: "b64_remaining ?st1 = ?st1" using idx by (simp add: b64_remaining_def)
  have "serial_stream_base64 (Some buf) width height = out ?st1 @ ''\<newline><<<BASE64_IMG_END>>>\<newline>''"
    unfolding serial_stream_base64_def by (simp only: option.case Let_def loops rem)
  then show ?thesis unfolding spec_base64_export_def body by simp
qed
lemma zero_fill:
  "fold (\<lambda>i t. t[i := 0]) [Suc 0..<3] [a, x, y] = [a, 0, 0 :: u8]"
  "fold (\<lambda>i t. t[i := 0]) [2..<3] [a, b, y] = [a, b, 0 :: u8]"
proof -
  have "[Suc 0..<3] = [1, 2 :: nat]" "[2..<3] = [2 :: nat]" by code_simp+
  then show "fold (\<lambda>i t. t[i := 0]) [Suc 0..<3] [a, x, y] = [a, 0, 0 :: u8]"
    "fold (\<lambda>i t. t[i := 0]) [2..<3] [a, b, y] = [a, b, 0 :: u8]" by simp_all
qed

lemma b64_remaining_one:
  "out (b64_remaining \<lparr>triplet = [a, x, y], triplet_idx = 1, line_len = ll, out = s\<rparr>)
     = s @ spec_base64 [unat a]"
  using pad1_spec [of a, symmetric] by (simp add: b64_remaining_def Let_def zero_fill del: spec_base64.simps)

lemma b64_remaining_two:
  "out (b64_remaining \<lparr>triplet = [a, b, y], triplet_idx = 2, line_len = ll, out = s\<rparr>)
     = s @ spec_base64 [unat a, unat b]"
  using pad2_spec [of a b, symmetric] by (simp add: b64_remaining_def Let_def zero_fill del: spec_base64.simps)

lemma base64_one_pixel:
  "serial_stream_base64 (Some (\<lambda>i. pack_pixel 255 0 128)) 1 1 =
     ''<<<BASE64_IMG_START>>>\<newline>WIDTH:1,HEIGHT:1\<newline>/wCA\<newline><<<BASE64_IMG_END>>>\<newline>''"
  by code_simp

text \<open>
  C6. For every frame \<^verbatim>\<open>serial_stream_base64\<close> writes exactly the reference export:
  the start marker line, the \<^verbatim>\<open>WIDTH:<w>,HEIGHT:<h>\<close> line, the standard base64
  encoding of the R, G, B bytes of the pixels in row-major order with a line break after
  every 76 characters, a newline and the end marker line. The code for leftover bytes
  writes the standard padded group for one and for two bytes. A one-pixel frame with
  channels (255, 0, 128) gives the four characters \<^verbatim>\<open>/wCA\<close> and no padding.
\<close>

theorem C6_base64_export:
  "serial_stream_base64 (Some buf) width height = spec_base64_export buf width height
   \<and> out (b64_remaining \<lparr>triplet = [a, x, y], triplet_idx = 1, line_len = ll, out = s\<rparr>)
       = s @ spec_base64 [unat a]
   \<and> out (b64_remaining \<lparr>triplet = [a, b, y], triplet_idx = 2, line_len = ll, out = s\<rparr>)
       = s @ spec_base64 [unat a, unat b]
   \<and> serial_stream_base64 (Some (\<lambda>i. pack_pixel 255 0 128)) 1 1 =
       ''<<<BASE64_IMG_START>>>\<newline>WIDTH:1,HEIGHT:1\<newline>/wCA\<newline><<<BASE64_IMG_END>>>\<newline>''"
  by (intro conjI serial_stream_base64_spec b64_remaining_one b64_remaining_two base64_one_pixel)

subsection \<open>ASCII preview\<close>


lemma sint_c_int_bounds: "- (2 ^ 31) \<le> sint (v :: c_int) \<and> sint v < 2 ^ 31"
  using sint_ge [of v] sint_lt [of v] by simp




lemma clamped_steps:
  fixes ratio width height :: c_int
  assumes "ratio <s 1"
  shows "(if ratio <s 1 then 1 else ratio) = 1"
    and "0 < sint (1 :: c_int)" and "sint width + sint (1 :: c_int) \<le> 2 ^ 31"
    and "0 < sint (1 * 2 :: c_int)"
    and "height <s 0x7FFFFFFF \<Longrightarrow> sint height + sint (1 * 2 :: c_int) \<le> 2 ^ 31"
proof -
  show "(if ratio <s 1 then 1 else ratio) = 1" using assms by simp
  show "0 < sint (1 :: c_int)" by simp
  show "sint width + sint (1 :: c_int) \<le> 2 ^ 31" using sint_c_int_bounds [of width] by simp
  show "0 < sint (1 * 2 :: c_int)" by simp
  show "sint height + sint (1 * 2 :: c_int) \<le> 2 ^ 31" if "height <s 0x7FFFFFFF"
    using that by (simp add: word_sless_alt)
qed












lemma lum_black: "luminance 0 0 0 = 0"
  by (simp add: luminance_def)

lemma lum_white: "luminance 255 255 255 = 255"
  by (simp add: luminance_def)

lemma ramp_black: "ramp_char BRIGHTNESS_STANDARD 0 = Inr (CHR '' '')"
  by (simp add: ramp_char_def BRIGHTNESS_STANDARD_def Let_def)

lemma ramp_white: "ramp_char BRIGHTNESS_STANDARD 255 = Inr (CHR ''@'')"
  by (simp add: ramp_char_def BRIGHTNESS_STANDARD_def Let_def)

lemma for_loop_once:
  assumes "v <s bound" and "\<not> v + step <s bound" and "body v s = Some (Inr s')"
  shows "for_loop v bound step body s = Some (Inr s')"
  using assms
  by (simp add: for_loop.simps [of v bound step body s]
        for_loop.simps [of "v + step" bound step body s'])

lemma one_by_one:
  "(0 :: c_int) <s 1" "\<not> (0 :: c_int) + 1 <s 1" "\<not> (0 :: c_int) + 2 <s 1"
  by (simp_all add: word_sless_alt)

lemma one_pixel:
  assumes "body 0 0 '''' = Some (Inr [c])"
  shows "for_loop 0 1 2 (\<lambda>y txt. end_row (for_loop 0 1 1 (body y) txt)) ''''
           = Some (Inr [c, CHR 0x0A])"
proof -
  have "for_loop 0 1 1 (body 0) '''' = Some (Inr [c])"
    by (rule for_loop_once [of 0 1 1 "body 0" "[]" "[c]"]) (simp_all add: one_by_one assms)
  then have "end_row (for_loop 0 1 1 (body 0) '''') = Some (Inr [c, CHR 0x0A])"
    by (simp add: end_row_def)
  then show ?thesis
    by (intro for_loop_once one_by_one(1,3))
qed


lemma from_cnn_black:
  "display_ascii_art_from_cnn (Some (\<lambda>i. pack_pixel 0 0 0)) 1 1 1 = Some (Inr '' \<newline>'')"
  unfolding display_ascii_art_from_cnn_def option.case Let_def
  by (simp add: one_pixel unpack_pack_pixel lum_black ramp_black putchar_ramp_def)

lemma from_cnn_white:
  "display_ascii_art_from_cnn (Some (\<lambda>i. pack_pixel 255 255 255)) 1 1 1 = Some (Inr ''@\<newline>'')"
  unfolding display_ascii_art_from_cnn_def option.case Let_def
  by (simp add: one_pixel unpack_pack_pixel lum_white ramp_white putchar_ramp_def)


lemma ascii_art_black:
  "display_ascii_art (Some (\<lambda>i. 0)) 1 1 1 None = Some (Inr '' \<newline>'')"
  unfolding display_ascii_art_def option.case Let_def
  by (simp add: one_pixel lum_black ramp_black putchar_ramp_def)

lemma ascii_art_white:
  "display_ascii_art (Some (\<lambda>i. 255)) 1 1 1 None = Some (Inr ''@\<newline>'')"
  unfolding display_ascii_art_def option.case Let_def
  by (simp add: one_pixel lum_white ramp_white putchar_ramp_def)

text \<open>
  C7. With ratio 1 and the 10-glyph standard ramp, the renderers draw a pixel of
  luminance 0 as the last character of the ramp (the space) and a pixel of luminance 255
  as its first character (\<^verbatim>\<open>@\<close>): the reverse of what the claim, and the comment
  \<^verbatim>\<open>/* Invert: dark pixels = dense chars, bright pixels = sparse chars */\<close> in the source,
  say.
\<close>

theorem C7_endpoints_as_coded:
  "luminance 0 0 0 = 0 \<and> luminance 255 255 255 = 255
   \<and> BRIGHTNESS_STANDARD ! 0 = CHR ''@'' \<and> BRIGHTNESS_STANDARD ! 9 = CHR '' ''
   \<and> length BRIGHTNESS_STANDARD = 10
   \<and> display_ascii_art_from_cnn (Some (\<lambda>i. pack_pixel 0 0 0)) 1 1 1 = Some (Inr '' \<newline>'')
   \<and> display_ascii_art_from_cnn (Some (\<lambda>i. pack_pixel 255 255 255)) 1 1 1 = Some (Inr ''@\<newline>'')
   \<and> display_ascii_art (Some (\<lambda>i. 0)) 1 1 1 None = Some (Inr '' \<newline>'')
   \<and> display_ascii_art (Some (\<lambda>i. 255)) 1 1 1 None = Some (Inr ''@\<newline>'')"
  by (intro conjI lum_black lum_white from_cnn_black from_cnn_white ascii_art_black ascii_art_white)
     (simp_all add: BRIGHTNESS_STANDARD_def)

text \<open>
  Once the ratio is clamped the row counter starts at 0 and moves by 2, so it stays even,
  and every even \<^verbatim>\<open>int\<close> is below \<^verbatim>\<open>INT_MAX\<close>. With a height of \<^verbatim>\<open>INT_MAX\<close> the test
  \<^verbatim>\<open>y < height\<close> therefore never fails and the call does not return; this is shown for
  rows of width 0, which print the line end only. The height is bounded accordingly where
  C10 says that the renderers end.
\<close>

lemma even_below_int_max:
  assumes "even (v :: c_int)"
  shows "v <s 0x7FFFFFFF"
proof -
  have "v \<noteq> 0x7FFFFFFF" using assms by auto
  moreover have "word_of_int (sint v) = v" by simp
  ultimately have "sint v \<noteq> 2147483647" by (metis of_int_numeral)
  moreover have "sint v < 2 ^ 31" using sint_c_int_bounds [of v] by simp
  ultimately show ?thesis by (simp add: word_sless_alt)
qed

lemma for_loop_wraps:
  assumes "for_loop v bound step body s = Some y"
  shows "\<not> (even v \<and> even step \<and> bound = 0x7FFFFFFF
            \<and> (\<forall>v s. \<exists>s'. body v s = Some (Inr s')))"
proof (rule for_loop.raw_induct
    [where P = "\<lambda>v bound step body s y. \<not> (even v \<and> even step \<and> bound = 0x7FFFFFFF
                  \<and> (\<forall>v s. \<exists>s'. body v s = Some (Inr s')))", OF _ assms])
  fix f :: "c_int \<Rightarrow> c_int \<Rightarrow> c_int \<Rightarrow> (c_int \<Rightarrow> 'a \<Rightarrow> (fault + 'a) option) \<Rightarrow> 'a \<Rightarrow> (fault + 'a) option"
  fix v bound step :: c_int and body :: "c_int \<Rightarrow> 'a \<Rightarrow> (fault + 'a) option" and s y
  assume ih: "\<And>v bound step body s y. f v bound step body s = Some y \<Longrightarrow>
      \<not> (even v \<and> even step \<and> bound = 0x7FFFFFFF \<and> (\<forall>v s. \<exists>s'. body v s = Some (Inr s')))"
  assume run: "(if v <s bound
      then Option.bind (body v s)
            (\<lambda>r. case r of Inl f \<Rightarrow> Some (Inl f)
                 | Inr s' \<Rightarrow> f (v + step) bound step body s')
      else Some (Inr s)) = Some y"
  show "\<not> (even v \<and> even step \<and> bound = 0x7FFFFFFF
            \<and> (\<forall>v s. \<exists>s'. body v s = Some (Inr s')))"
  proof
    assume inv: "even v \<and> even step \<and> bound = 0x7FFFFFFF
                 \<and> (\<forall>v s. \<exists>s'. body v s = Some (Inr s'))"
    then obtain s' where b: "body v s = Some (Inr s')" by blast
    have lt: "v <s bound" using inv even_below_int_max [of v] by simp
    have "f (v + step) bound step body s' = Some y"
      using run lt b by simp
    from ih [OF this] inv show False by simp
  qed
qed

lemma for_loop_never_ends:
  assumes "even v" and "even step" and "\<And>v s. \<exists>s'. body v s = Some (Inr s')"
  shows "for_loop v 0x7FFFFFFF step body s = None"
proof (cases "for_loop v 0x7FFFFFFF step body s")
  case None
  then show ?thesis .
next
  case (Some y)
  from for_loop_wraps [OF this] assms show ?thesis by blast
qed

lemma empty_row:
  "\<exists>s'. end_row (for_loop 0 0 step body s) = Some (Inr s')"
  by (simp add: for_loop.simps [of 0 0] end_row_def)

lemma from_cnn_never_ends:
  assumes "ratio <s 1"
  shows "display_ascii_art_from_cnn (Some buf) 0 0x7FFFFFFF ratio = None"
  unfolding display_ascii_art_from_cnn_def option.case Let_def clamped_steps(1) [OF assms]
  by (rule for_loop_never_ends) (simp_all add: empty_row)



subsection \<open>Frame capture\<close>

lemma capture_pixel_inv:
  assumes "capture_inv cb cbs rb rbs st"
  shows "capture_inv cb cbs rb rbs (fst (capture_pixel data cb cbs rb rbs k st))"
  using assms
  by (cases data)
     (auto simp: capture_pixel_def capture_inv_def Let_def cnn_indices_def rgb565_stores_def)

lemma capture_line_inv:
  assumes "capture_inv cb cbs rb rbs st"
  shows "capture_inv cb cbs rb rbs (fst (capture_line data cb cbs rb rbs bound k st))"
  using assms
proof (induction data cb cbs rb rbs bound k st rule: capture_line.induct)
  case (1 data cb cbs rb rbs bound k st)
  note step = capture_line.simps [of data cb cbs rb rbs bound k st]
  show ?case
  proof (cases "k < bound")
    case False
    then show ?thesis using "1.prems" by (simp add: step)
  next
    case True
    obtain st' fo where p: "capture_pixel data cb cbs rb rbs (nat k) st = (st', fo)"
      by (cases "capture_pixel data cb cbs rb rbs (nat k) st")
    have inv': "capture_inv cb cbs rb rbs st'"
      using capture_pixel_inv [OF "1.prems", of data "nat k"] by (simp add: p)
    show ?thesis
    proof (cases fo)
      case (Some f)
      then show ?thesis using True p inv' by (simp add: step)
    next
      case None
      from "1.IH" [OF True p [symmetric] None inv'] True p None
      show ?thesis by (simp add: step)
    qed
  qed
qed

lemma capture_inv_polls:
  "capture_inv cb cbs rb rbs (st\<lparr>cs_polls := ps, cs_j := n\<rparr>) = capture_inv cb cbs rb rbs st"
  by (simp add: capture_inv_def)

lemma capture_rows_inv:
  assumes "capture_inv cb cbs rb rbs st"
  shows "capture_inv cb cbs rb rbs (fst (capture_rows cb cbs rb rbs bound h row st))"
  using assms
proof (induction cb cbs rb rbs bound h row st rule: capture_rows.induct)
  case (1 cb cbs rb rbs bound h row st)
  note step = capture_rows.simps [of cb cbs rb rbs bound h row st]
  show ?case
  proof (cases "row < h")
    case False
    then show ?thesis using "1.prems" by (simp add: step)
  next
    case True
    show ?thesis
    proof (cases "wait_stream_buffer (cs_polls st)")
      case None
      then show ?thesis using True "1.prems" by (simp add: step)
    next
      case (Some a)
      obtain data rest where a: "a = (data, rest)" by (cases a)
      let ?st0 = "st\<lparr>cs_polls := rest, cs_j := 0\<rparr>"
      obtain st' fo where l: "capture_line data cb cbs rb rbs bound 0 ?st0 = (st', fo)"
        by (cases "capture_line data cb cbs rb rbs bound 0 ?st0")
      have "capture_inv cb cbs rb rbs ?st0" using "1.prems" by (simp add: capture_inv_polls)
      from capture_line_inv [OF this, of data bound 0]
      have inv': "capture_inv cb cbs rb rbs st'" by (simp add: l)
      show ?thesis
      proof (cases fo)
        case (Some f)
        then show ?thesis using True \<open>wait_stream_buffer (cs_polls st) = Some a\<close> a l inv'
          by (simp add: step)
      next
        case None
        from "1.IH" [OF True \<open>wait_stream_buffer (cs_polls st) = Some a\<close> a [symmetric] l [symmetric] None inv']
        show ?thesis using True \<open>wait_stream_buffer (cs_polls st) = Some a\<close> a l None
          by (simp add: step)
      qed
    qed
  qed
qed

lemma camera_utils_capture_stores:
  "fst (camera_utils_capture cam cb cbs rb rbs) =
     cs_stores (fst (capture_rows cb cbs rb rbs (sint (4 * cam_w cam)) (sint (cam_h cam)) 0
                   \<lparr>cs_cnt = 0, cs_j = 0, cs_stores = [], cs_polls = cam_polls cam\<rparr>))"
  by (simp add: camera_utils_capture_def Let_def split: prod.split ending.split)

lemma capture_inv_final:
  "capture_inv cb cbs rb rbs
     (fst (capture_rows cb cbs rb rbs (sint (4 * cam_w cam)) (sint (cam_h cam)) 0
             \<lparr>cs_cnt = 0, cs_j = 0, cs_stores = [], cs_polls = cam_polls cam\<rparr>))"
  by (rule capture_rows_inv) (simp add: capture_inv_def cnn_indices_def rgb565_stores_def)

lemma capture_pixel_counts:
  assumes "cb = Buffer \<or> unat cbs \<le> cs_cnt st" and "cs_cnt st \<le> unat cbs"
  shows "snd (capture_pixel (Some d) cb cbs rb rbs k st) = None
       \<and> cs_cnt (fst (capture_pixel (Some d) cb cbs rb rbs k st)) = min (cs_cnt st + 1) (unat cbs)
       \<and> cs_polls (fst (capture_pixel (Some d) cb cbs rb rbs k st)) = cs_polls st"
  using assms by (auto simp: capture_pixel_def Let_def)

lemma pixels_step:
  assumes "k < bound"
  shows "nat ((bound - k + 3) div 4) = Suc (nat ((bound - (k + 4) + 3) div 4))"
proof -
  have "(bound - k + 3) div 4 = (bound - (k + 4) + 3) div 4 + 1" by simp
  moreover have "0 \<le> (bound - (k + 4) + 3) div 4" using assms by simp
  ultimately show ?thesis by simp
qed

lemma capture_line_counts:
  assumes "data = Some d" and "cb = Buffer \<or> unat cbs \<le> cs_cnt st" and "cs_cnt st \<le> unat cbs"
  shows "snd (capture_line data cb cbs rb rbs bound k st) = None
       \<and> cs_cnt (fst (capture_line data cb cbs rb rbs bound k st))
           = min (cs_cnt st + nat ((bound - k + 3) div 4)) (unat cbs)
       \<and> cs_polls (fst (capture_line data cb cbs rb rbs bound k st)) = cs_polls st"
  using assms
proof (induction data cb cbs rb rbs bound k st rule: capture_line.induct)
  case (1 data cb cbs rb rbs bound k st)
  note step = capture_line.simps [of data cb cbs rb rbs bound k st]
  note d = "1.prems"(1)
  show ?case
  proof (cases "k < bound")
    case False
    then have "nat ((bound - k + 3) div 4) = 0" by simp
    then show ?thesis using False "1.prems"(3) by (simp add: step)
  next
    case True
    obtain st' fo where p: "capture_pixel data cb cbs rb rbs (nat k) st = (st', fo)"
      by (cases "capture_pixel data cb cbs rb rbs (nat k) st")
    from capture_pixel_counts [OF "1.prems"(2,3), of d rb rbs "nat k"] p
    have fo: "fo = None" and c: "cs_cnt st' = min (cs_cnt st + 1) (unat cbs)"
      and q: "cs_polls st' = cs_polls st" by (simp_all add: d)
    have pre: "cb = Buffer \<or> unat cbs \<le> cs_cnt st'" "cs_cnt st' \<le> unat cbs"
      using "1.prems"(2,3) c by auto
    from "1.IH" [OF True p [symmetric] fo d pre]
    have ih: "snd (capture_line data cb cbs rb rbs bound (k + 4) st') = None"
      "cs_cnt (fst (capture_line data cb cbs rb rbs bound (k + 4) st'))
           = min (cs_cnt st' + nat ((bound - (k + 4) + 3) div 4)) (unat cbs)"
      "cs_polls (fst (capture_line data cb cbs rb rbs bound (k + 4) st')) = cs_polls st'"
      by simp_all
    have eq: "capture_line data cb cbs rb rbs bound k st
                = capture_line data cb cbs rb rbs bound (k + 4) st'"
      using True p fo by (simp add: step)
    show ?thesis
      unfolding eq pixels_step [OF True] using ih c q by (simp add: min_def)
  qed
qed

lemma capture_rows_counts:
  assumes "\<forall>p \<in> set (cs_polls st). fst p \<noteq> None" and "nat (h - row) \<le> length (cs_polls st)"
    and "cb = Buffer \<or> unat cbs \<le> cs_cnt st" and "cs_cnt st \<le> unat cbs"
  shows "snd (capture_rows cb cbs rb rbs bound h row st) = Returned ()
       \<and> cs_cnt (fst (capture_rows cb cbs rb rbs bound h row st))
           = min (cs_cnt st + nat (h - row) * line_pixels bound) (unat cbs)"
  using assms
proof (induction cb cbs rb rbs bound h row st rule: capture_rows.induct)
  case (1 cb cbs rb rbs bound h row st)
  note step = capture_rows.simps [of cb cbs rb rbs bound h row st]
  show ?case
  proof (cases "row < h")
    case False
    then have "nat (h - row) = 0" by simp
    then show ?thesis using False "1.prems"(4) by (simp add: step)
  next
    case True
    then have n: "nat (h - row) = Suc (nat (h - (row + 1)))" by simp
    with "1.prems"(2) obtain p ps where ps: "cs_polls st = p # ps"
      by (cases "cs_polls st") simp_all
    with "1.prems"(1) obtain d rcv where p: "p = (Some d, rcv)"
      by (cases p) auto
    have w: "wait_stream_buffer (cs_polls st) = Some (Some d, ps)" by (simp add: ps p)
    let ?st0 = "st\<lparr>cs_polls := ps, cs_j := 0\<rparr>"
    obtain st' fo where l: "capture_line (Some d) cb cbs rb rbs bound 0 ?st0 = (st', fo)"
      by (cases "capture_line (Some d) cb cbs rb rbs bound 0 ?st0")
    have pre0: "cb = Buffer \<or> unat cbs \<le> cs_cnt ?st0" "cs_cnt ?st0 \<le> unat cbs"
      using "1.prems"(3,4) by simp_all
    from capture_line_counts [OF refl pre0, of d rb rbs bound 0] l
    have fo: "fo = None" and c: "cs_cnt st' = min (cs_cnt st + line_pixels bound) (unat cbs)"
      and q: "cs_polls st' = ps" by (simp_all add: line_pixels_def)
    have pre: "\<forall>p \<in> set (cs_polls st'). fst p \<noteq> None" "nat (h - (row + 1)) \<le> length (cs_polls st')"
      "cb = Buffer \<or> unat cbs \<le> cs_cnt st'" "cs_cnt st' \<le> unat cbs"
      using "1.prems" ps q c n by auto
    from "1.IH" [OF True w refl l [symmetric] fo pre]
    have ih: "snd (capture_rows cb cbs rb rbs bound h (row + 1) st') = Returned ()"
      "cs_cnt (fst (capture_rows cb cbs rb rbs bound h (row + 1) st'))
           = min (cs_cnt st' + nat (h - (row + 1)) * line_pixels bound) (unat cbs)"
      by simp_all
    have eq: "capture_rows cb cbs rb rbs bound h row st
                = capture_rows cb cbs rb rbs bound h (row + 1) st'"
      using True w l fo by (simp add: step)
    show ?thesis
      unfolding eq n using ih c "1.prems"(4) by (simp add: min_def)
  qed
qed

lemma camera_utils_capture_returns:
  assumes "\<forall>p \<in> set (cam_polls cam). fst p \<noteq> None"
    and "nat (sint (cam_h cam)) \<le> length (cam_polls cam)"
    and "cb = Buffer \<or> cbs = 0"
  shows "snd (camera_utils_capture cam cb cbs rb rbs)
           = Returned (if cam_overflow_count cam \<noteq> 0 then CAM_STATUS_OVERFLOW else CAM_STATUS_OK)"
    and "cnn_indices (fst (camera_utils_capture cam cb cbs rb rbs))
           = [0..<min (nat (sint (cam_h cam)) * line_pixels (sint (4 * cam_w cam))) (unat cbs)]"
proof -
  let ?st0 = "\<lparr>cs_cnt = 0, cs_j = 0, cs_stores = [], cs_polls = cam_polls cam\<rparr>"
  let ?r = "capture_rows cb cbs rb rbs (sint (4 * cam_w cam)) (sint (cam_h cam)) 0 ?st0"
  have pre: "\<forall>p \<in> set (cs_polls ?st0). fst p \<noteq> None"
    "nat (sint (cam_h cam) - 0) \<le> length (cs_polls ?st0)"
    "cb = Buffer \<or> unat cbs \<le> cs_cnt ?st0" "cs_cnt ?st0 \<le> unat cbs"
    using assms by auto
  from capture_rows_counts [OF pre, of rb rbs "sint (4 * cam_w cam)"]
  have e: "snd ?r = Returned ()"
    and c: "cs_cnt (fst ?r) = min (nat (sint (cam_h cam)) * line_pixels (sint (4 * cam_w cam))) (unat cbs)"
    by simp_all
  obtain st where r: "?r = (st, Returned ())" using e by (cases ?r) simp
  show "snd (camera_utils_capture cam cb cbs rb rbs)
           = Returned (if cam_overflow_count cam \<noteq> 0 then CAM_STATUS_OVERFLOW else CAM_STATUS_OK)"
    by (simp add: camera_utils_capture_def Let_def r word_greater_zero_iff)
  have "capture_inv cb cbs rb rbs (fst ?r)" by (rule capture_inv_final)
  then have "cnn_indices (cs_stores (fst ?r)) = [0..<cs_cnt (fst ?r)]"
    by (simp add: capture_inv_def)
  then show "cnn_indices (fst (camera_utils_capture cam cb cbs rb rbs))
           = [0..<min (nat (sint (cam_h cam)) * line_pixels (sint (4 * cam_w cam))) (unat cbs)]"
    by (simp only: camera_utils_capture_stores c)
qed

lemma camera_utils_capture_status:
  assumes "snd (camera_utils_capture cam cb cbs rb rbs) = Returned s"
  shows "s = (if cam_overflow_count cam \<noteq> 0 then CAM_STATUS_OVERFLOW else CAM_STATUS_OK)"
  using assms
  by (auto simp: camera_utils_capture_def Let_def word_greater_zero_iff
           split: prod.splits ending.splits if_splits)

lemma overflow_single_capture:
  assumes "cam_overflow_count cam \<noteq> 0"
  shows "filter accelerator_call (fst (run_single_capture cam N smax hw res)) = []"
    and "snd (run_single_capture cam N smax hw res) \<noteq> Returned ()"
proof -
  obtain log e where c: "camera_utils_capture cam Buffer INPUT_WORDS Buffer DATA565_SIZE = (log, e)"
    by (cases "camera_utils_capture cam Buffer INPUT_WORDS Buffer DATA565_SIZE")
  have "e = Returned s \<Longrightarrow> s = CAM_STATUS_OVERFLOW" for s
    using camera_utils_capture_status [of cam Buffer INPUT_WORDS Buffer DATA565_SIZE s] c assms
    by simp
  then show "filter accelerator_call (fst (run_single_capture cam N smax hw res)) = []"
    and "snd (run_single_capture cam N smax hw res) \<noteq> Returned ()"
    by (cases e; simp add: run_single_capture_def c)+
qed

lemma overflow_live_feed:
  assumes "cam_overflow_count cam \<noteq> 0"
  shows "filter accelerator_call (fst (run_live_feed_round cam N smax hw res)) = []"
proof -
  obtain log e where c: "camera_utils_capture cam Buffer INPUT_WORDS Buffer DATA565_SIZE = (log, e)"
    by (cases "camera_utils_capture cam Buffer INPUT_WORDS Buffer DATA565_SIZE")
  have "e = Returned s \<Longrightarrow> s = CAM_STATUS_OVERFLOW" for s
    using camera_utils_capture_status [of cam Buffer INPUT_WORDS Buffer DATA565_SIZE s] c assms
    by simp
  then show ?thesis
    by (cases e; simp add: run_live_feed_round_def c)
qed

lemma capture_pixel_no_null_write:
  assumes "cb = Buffer \<or> cbs = 0"
  shows "snd (capture_pixel data cb cbs rb rbs k st) \<noteq> Some NullWrite"
  using assms by (cases data) (auto simp: capture_pixel_def Let_def)

lemma capture_line_no_null_write:
  assumes "cb = Buffer \<or> cbs = 0"
  shows "snd (capture_line data cb cbs rb rbs bound k st) \<noteq> Some NullWrite"
  using assms
proof (induction data cb cbs rb rbs bound k st rule: capture_line.induct)
  case (1 data cb cbs rb rbs bound k st)
  note step = capture_line.simps [of data cb cbs rb rbs bound k st]
  show ?case
  proof (cases "k < bound")
    case False
    then show ?thesis by (simp add: step)
  next
    case True
    obtain st' fo where p: "capture_pixel data cb cbs rb rbs (nat k) st = (st', fo)"
      by (cases "capture_pixel data cb cbs rb rbs (nat k) st")
    have nf: "fo \<noteq> Some NullWrite"
      using capture_pixel_no_null_write [OF "1.prems", of data rb rbs "nat k" st] by (simp add: p)
    show ?thesis
    proof (cases fo)
      case (Some f)
      then show ?thesis using True p nf by (simp add: step)
    next
      case None
      from "1.IH" [OF True p [symmetric] None "1.prems"] True p None
      show ?thesis by (simp add: step)
    qed
  qed
qed

lemma capture_rows_no_null_write:
  assumes "cb = Buffer \<or> cbs = 0"
  shows "snd (capture_rows cb cbs rb rbs bound h row st) \<noteq> Crashed NullWrite"
  using assms
proof (induction cb cbs rb rbs bound h row st rule: capture_rows.induct)
  case (1 cb cbs rb rbs bound h row st)
  note step = capture_rows.simps [of cb cbs rb rbs bound h row st]
  show ?case
  proof (cases "row < h")
    case False
    then show ?thesis by (simp add: step)
  next
    case True
    show ?thesis
    proof (cases "wait_stream_buffer (cs_polls st)")
      case None
      then show ?thesis using True by (simp add: step)
    next
      case (Some a)
      obtain data rest where a: "a = (data, rest)" by (cases a)
      let ?st0 = "st\<lparr>cs_polls := rest, cs_j := 0\<rparr>"
      obtain st' fo where l: "capture_line data cb cbs rb rbs bound 0 ?st0 = (st', fo)"
        by (cases "capture_line data cb cbs rb rbs bound 0 ?st0")
      have nf: "fo \<noteq> Some NullWrite"
        using capture_line_no_null_write [OF "1.prems", of data rb rbs bound 0 ?st0] by (simp add: l)
      show ?thesis
      proof (cases fo)
        case (Some f)
        then show ?thesis using True \<open>wait_stream_buffer (cs_polls st) = Some a\<close> a l nf
          by (simp add: step)
      next
        case None
        from "1.IH" [OF True \<open>wait_stream_buffer (cs_polls st) = Some a\<close> a [symmetric] l [symmetric] None "1.prems"]
        show ?thesis using True \<open>wait_stream_buffer (cs_polls st) = Some a\<close> a l None
          by (simp add: step)
      qed
    qed
  qed
qed

lemma camera_utils_capture_no_null_write:
  assumes "cb = Buffer \<or> cbs = 0"
  shows "snd (camera_utils_capture cam cb cbs rb rbs) \<noteq> Crashed NullWrite"
  using capture_rows_no_null_write [OF assms, of rb rbs "sint (4 * cam_w cam)" "sint (cam_h cam)" 0
     "\<lparr>cs_cnt = 0, cs_j = 0, cs_stores = [], cs_polls = cam_polls cam\<rparr>"]
  by (auto simp: camera_utils_capture_def Let_def split: prod.splits ending.splits)

lemma capture_null_display:
  "rgb565_stores (fst (camera_utils_capture cam cb cbs NULL rbs)) = []"
  using capture_inv_final [of cb cbs NULL rbs cam]
  by (simp only: camera_utils_capture_stores) (simp add: capture_inv_def)

lemma capture_zero_capacity:
  "cnn_indices (fst (camera_utils_capture cam cb 0 rb rbs)) = []"
  using capture_inv_final [of cb 0 rb rbs cam]
  by (simp only: camera_utils_capture_stores) (simp add: capture_inv_def)

lemma capture_in_bounds:
  "\<forall>s \<in> set (fst (camera_utils_capture cam cb cbs rb rbs)). store_in_bounds cbs rbs s"
  using capture_inv_final [of cb cbs rb rbs cam]
  by (simp only: camera_utils_capture_stores) (simp add: capture_inv_def)

lemma capture_indices_prefix:
  "\<exists>m \<le> unat cbs. cnn_indices (fst (camera_utils_capture cam cb cbs rb rbs)) = [0..<m]"
  using capture_inv_final [of cb cbs rb rbs cam]
  by (simp only: camera_utils_capture_stores) (auto simp add: capture_inv_def)

text \<open>
  C4. If \<^verbatim>\<open>camera_utils_capture\<close> returns, its status is \<^verbatim>\<open>CAM_STATUS_OVERFLOW\<close> when
  the overflow counter read after the scanlines is non-zero and \<^verbatim>\<open>CAM_STATUS_OK\<close>
  otherwise; it does return when the driver hands out a line at every poll, for each of
  the rows, and \<^verbatim>\<open>cnn_buffer\<close> is a buffer. With a non-zero counter neither
  \<^verbatim>\<open>run_single_capture\<close> (which then never returns) nor a round of the live feed calls
  \<^verbatim>\<open>inference_start\<close>, \<^verbatim>\<open>inference_load_input\<close> or \<^verbatim>\<open>inference_wait\<close>.
\<close>

theorem C4_overflow_terminal:
  "(\<forall>s. snd (camera_utils_capture cam cb cbs rb rbs) = Returned s \<longrightarrow>
        s = (if cam_overflow_count cam \<noteq> 0 then CAM_STATUS_OVERFLOW else CAM_STATUS_OK))
   \<and> ((\<forall>p \<in> set (cam_polls cam). fst p \<noteq> None)
        \<and> nat (sint (cam_h cam)) \<le> length (cam_polls cam) \<and> cb = Buffer \<longrightarrow>
        snd (camera_utils_capture cam cb cbs rb rbs)
          = Returned (if cam_overflow_count cam \<noteq> 0 then CAM_STATUS_OVERFLOW else CAM_STATUS_OK))
   \<and> (cam_overflow_count cam \<noteq> 0 \<longrightarrow>
        filter accelerator_call (fst (run_single_capture cam N smax hw res)) = []
        \<and> snd (run_single_capture cam N smax hw res) \<noteq> Returned ()
        \<and> filter accelerator_call (fst (run_live_feed_round cam N smax hw res)) = [])"
  using camera_utils_capture_status [of cam cb cbs rb rbs]
    camera_utils_capture_returns(1) [of cam cb cbs rb rbs]
    overflow_single_capture [of cam N smax hw res] overflow_live_feed [of cam N smax hw res]
  by blast

theorem C4_overflow_terminal_witness:
  "fst (Some (of_nat :: nat \<Rightarrow> u8), False) \<noteq> None
   \<and> nat (sint (1 :: u32)) \<le> length [(Some (of_nat :: nat \<Rightarrow> u8), False)]
   \<and> (2 :: u32) \<noteq> 0
   \<and> snd (camera_utils_capture
             \<lparr>cam_w = 1, cam_h = 1, cam_polls = [(Some of_nat, False)], cam_overflow_count = 2\<rparr>
             Buffer INPUT_WORDS Buffer DATA565_SIZE) = Returned CAM_STATUS_OVERFLOW
   \<and> filter accelerator_call
         (fst (run_single_capture
                 \<lparr>cam_w = 1, cam_h = 1, cam_polls = [(Some of_nat, False)], cam_overflow_count = 2\<rparr>
                 2 (\<lambda>raw n. [100, 100]) \<lparr>cnn_time_reads = [7], cnn_unload = [0, 0]\<rparr>
                 \<lparr>raw_output = [0, 0], softmax = [0, 0], predicted_class = 0,
                  confidence_percent = 0, inference_time_us = 0\<rparr>)) = []
   \<and> snd (run_single_capture
                 \<lparr>cam_w = 1, cam_h = 1, cam_polls = [(Some of_nat, False)], cam_overflow_count = 2\<rparr>
                 2 (\<lambda>raw n. [100, 100]) \<lparr>cnn_time_reads = [7], cnn_unload = [0, 0]\<rparr>
                 \<lparr>raw_output = [0, 0], softmax = [0, 0], predicted_class = 0,
                  confidence_percent = 0, inference_time_us = 0\<rparr>) \<noteq> Returned ()"
  using C4_overflow_terminal [of
      "\<lparr>cam_w = 1, cam_h = 1, cam_polls = [(Some of_nat, False)], cam_overflow_count = 2\<rparr>"
      Buffer INPUT_WORDS Buffer DATA565_SIZE 2 "\<lambda>raw n. [100, 100]"
      "\<lparr>cnn_time_reads = [7], cnn_unload = [0, 0]\<rparr>"
      "\<lparr>raw_output = [0, 0], softmax = [0, 0], predicted_class = 0,
        confidence_percent = 0, inference_time_us = 0\<rparr>"]
  by simp

text \<open>
  C5. Whatever the camera reports and however the pass ends, every store to the
  accelerator buffer is at an index below \<^verbatim>\<open>cnn_buffer_size\<close> and every store to the
  display buffer at an index below \<^verbatim>\<open>rgb565_size\<close>; the accelerator indices are
  \<^verbatim>\<open>0, 1, ..., m - 1\<close> for some \<^verbatim>\<open>m\<close> up to the capacity. When the driver hands out
  every line, the pass returns and \<^verbatim>\<open>m\<close> is the smaller of the number of pixels and the
  capacity: the pixels beyond it are dropped.
\<close>

theorem C5_bounds_clamped:
  "(\<forall>s \<in> set (fst (camera_utils_capture cam cb cbs rb rbs)). store_in_bounds cbs rbs s)
   \<and> (\<exists>m \<le> unat cbs. cnn_indices (fst (camera_utils_capture cam cb cbs rb rbs)) = [0..<m])
   \<and> ((\<forall>p \<in> set (cam_polls cam). fst p \<noteq> None)
        \<and> nat (sint (cam_h cam)) \<le> length (cam_polls cam) \<and> cb = Buffer \<longrightarrow>
        (\<exists>s. snd (camera_utils_capture cam cb cbs rb rbs) = Returned s)
        \<and> cnn_indices (fst (camera_utils_capture cam cb cbs rb rbs))
            = [0..<min (nat (sint (cam_h cam)) * line_pixels (sint (4 * cam_w cam))) (unat cbs)])"
  using capture_in_bounds [of cam cb cbs rb rbs] capture_indices_prefix [of cbs cam cb rb rbs]
    camera_utils_capture_returns [of cam cb cbs rb rbs]
  by blast

theorem C5_bounds_clamped_witness:
  "fst (Some (of_nat :: nat \<Rightarrow> u8), False) \<noteq> None
   \<and> nat (sint (2 :: u32)) \<le> length [(Some (of_nat :: nat \<Rightarrow> u8), False), (Some of_nat, False)]
   \<and> (\<exists>s. snd (camera_utils_capture
             \<lparr>cam_w = 2, cam_h = 2, cam_polls = [(Some of_nat, False), (Some of_nat, False)],
              cam_overflow_count = 0\<rparr> Buffer 3 Buffer 3) = Returned s)
   \<and> cnn_indices (fst (camera_utils_capture
             \<lparr>cam_w = 2, cam_h = 2, cam_polls = [(Some of_nat, False), (Some of_nat, False)],
              cam_overflow_count = 0\<rparr> Buffer 3 Buffer 3)) = [0, 1, 2]
   \<and> list_all (store_in_bounds 3 3) (fst (camera_utils_capture
             \<lparr>cam_w = 2, cam_h = 2, cam_polls = [(Some of_nat, False), (Some of_nat, False)],
              cam_overflow_count = 0\<rparr> Buffer 3 Buffer 3))"
proof -
  have "[0..<3] = [0, 1, 2 :: nat]" by code_simp
  moreover have "line_pixels (sint (4 * 2 :: u32)) = 2" by (simp add: line_pixels_def)
  ultimately show ?thesis
    using C5_bounds_clamped [of
      "\<lparr>cam_w = 2, cam_h = 2, cam_polls = [(Some of_nat, False), (Some of_nat, False)],
              cam_overflow_count = 0\<rparr>" Buffer 3 Buffer 3]
    by (simp add: list_all_iff)
qed

text \<open>
  C8, as the code has it. The three exporters and the three renderers write nothing for a
  \<^verbatim>\<open>NULL\<close> buffer. \<^verbatim>\<open>camera_utils_capture\<close> stores nothing to the display buffer when
  \<^verbatim>\<open>rgb565_buffer\<close> is \<^verbatim>\<open>NULL\<close>, and with a \<^verbatim>\<open>cnn_buffer_size\<close> of 0 it stores nothing to
  the accelerator buffer and does not fault on a store, \<^verbatim>\<open>cnn_buffer\<close> being \<^verbatim>\<open>NULL\<close> or
  not.
\<close>

theorem C8_null_buffers:
  "serial_stream_ppm None width height = ''''
   \<and> serial_stream_hex None width height = ''''
   \<and> serial_stream_base64 None width height = ''''
   \<and> display_ascii_art None w h ratio brightness = Some (Inr '''')
   \<and> display_ascii_art_from_cnn None w h ratio = Some (Inr '''')
   \<and> display_ascii_art_detailed None w h ratio = Some (Inr '''')
   \<and> rgb565_stores (fst (camera_utils_capture cam cb cbs NULL rbs)) = []
   \<and> cnn_indices (fst (camera_utils_capture cam cb 0 rb rbs)) = []
   \<and> snd (camera_utils_capture cam cb 0 rb rbs) \<noteq> Crashed NullWrite"
  using capture_null_display [of cam cb cbs rbs] capture_zero_capacity [of cam cb rb rbs]
    camera_utils_capture_no_null_write [of cb 0 cam rb rbs]
  by (simp add: serial_stream_ppm_def serial_stream_hex_def serial_stream_base64_def
        display_ascii_art_def display_ascii_art_from_cnn_def display_ascii_art_detailed_def)

text \<open>
  The claim C8 as stated fails for \<^verbatim>\<open>camera_utils_capture\<close>: with \<^verbatim>\<open>cnn_buffer == NULL\<close>,
  a capacity of 1 and a 1x1 frame, the first pixel is stored through the null pointer.
\<close>

theorem C8_null_cnn_buffer_counterexample:
  "camera_utils_capture
     \<lparr>cam_w = 1, cam_h = 1, cam_polls = [(Some of_nat, False)], cam_overflow_count = 0\<rparr>
     NULL 1 NULL 0 = ([], Crashed NullWrite)"
  by (simp add: camera_utils_capture_def capture_rows.simps capture_line.simps capture_pixel_def)

end
